theory Spec2Isabelle
  imports Main "HOL-Library.Word"
begin

section \<open>pg\_plan\_override: data model\<close>

text \<open>
  The extension keeps its state in file-level static variables and talks to the
  PostgreSQL backend through the GUC machinery, SPI, the clock and the planner
  chain. The static variables become the record \<open>po_state\<close>; the backend is an
  abstract world \<open>'w\<close> reached only through the operations of a \<open>host\<close> record,
  which the functions below take as a parameter. A backend \<open>ereport(ERROR)\<close> is
  the \<open>Inl\<close> branch of a sum.
\<close>

text \<open>
  A 64-bit integer, signed or unsigned, is its bit pattern, a \<open>64 word\<close>; the cast
  \<open>(int64)\<close> of a \<open>uint64\<close> keeps the bits. A \<open>TimestampTz\<close> counts microseconds;
  the differences taken here are far from the 64-bit range.
\<close>

type_synonym int64 = "64 word"
type_synonym uint64 = "64 word"
type_synonym TimestampTz = int

text \<open>
  \<open>struct OverrideRule\<close>. The two \<open>char **\<close> arrays are lists; \<open>num_gucs\<close> is the
  count \<open>parse_jsonb_gucs\<close> returned (never negative).
\<close>

record OverrideRule =
  query_id :: int64
  query_pattern :: "string option"
  guc_names :: "string list"
  guc_values :: "string list"
  num_gucs :: nat
  priority :: "32 word"

text \<open>
  What the planner hook receives: \<open>parse->queryId\<close>, the query string (which may be
  \<open>NULL\<close>) and everything else (\<open>parse\<close>, \<open>cursorOptions\<close>, \<open>boundParams\<close>), which
  the hook only hands on.
\<close>

record 'a plan_request =
  queryId :: uint64
  query_string :: "string option"
  plan_args :: 'a

section \<open>pattern\_match\<close>

text \<open>
  A C string is the list of its characters before the terminator; reading at or
  past the end gives the terminating NUL.
\<close>

definition cstr_at :: "string \<Rightarrow> nat \<Rightarrow> char" where
  "cstr_at s i = (if i < length s then s ! i else CHR 0x00)"

text \<open>\<open>while (*p == '%') p++;\<close>\<close>

function skip_percent :: "string \<Rightarrow> nat \<Rightarrow> nat" where
  "skip_percent pat p =
     (if cstr_at pat p = CHR ''%'' then skip_percent pat (Suc p) else p)"
  by pat_completeness auto
termination
  by (relation "measure (\<lambda>(pat, p). length pat - p)")
     (auto simp: cstr_at_def split: if_splits)

declare skip_percent.simps [simp del]

text \<open>
  The main loop of \<open>pattern_match\<close>. \<open>t\<close> and \<open>p\<close> are offsets into the text and the
  pattern. \<open>t_backtrack\<close> and \<open>p_backtrack\<close> are assigned together and start as
  \<open>NULL\<close> together, so they are one optional pair \<open>(t_backtrack, p_backtrack)\<close>.
\<close>

function pattern_match_loop ::
  "string \<Rightarrow> string \<Rightarrow> nat \<Rightarrow> nat \<Rightarrow> (nat \<times> nat) option \<Rightarrow> bool" where
  "pattern_match_loop text pat t p bt =
     (if cstr_at text t \<noteq> CHR 0x00 then
        (if cstr_at pat p = CHR ''%'' then
           (if cstr_at pat (skip_percent pat p) = CHR 0x00 then True
            else pattern_match_loop text pat t (skip_percent pat p)
                   (Some (t, skip_percent pat p)))
         else if cstr_at pat p = CHR ''_'' \<or> cstr_at pat p = cstr_at text t then
           pattern_match_loop text pat (Suc t) (Suc p) bt
         else
           (case bt of
              Some (t_backtrack, p_backtrack) \<Rightarrow>
                pattern_match_loop text pat (Suc t_backtrack) p_backtrack
                  (Some (Suc t_backtrack, p_backtrack))
            | None \<Rightarrow> False))
      else cstr_at pat (skip_percent pat p) = CHR 0x00)"
  by pat_completeness auto
termination
proof (relation "measures
    [\<lambda>(text, pat, t, p, bt). length text -
        (case bt of None \<Rightarrow> 0 | Some (tb, pb) \<Rightarrow> min tb t),
     \<lambda>(text, pat, t, p, bt). length pat - p]", goal_cases)
  case 1
  show ?case by simp
next
  case (2 tx pat t p bt)
  have skip: "\<And>q. q \<le> skip_percent pat q \<and> (q \<le> length pat \<longrightarrow> skip_percent pat q \<le> length pat)"
  proof -
    fix q show "q \<le> skip_percent pat q \<and> (q \<le> length pat \<longrightarrow> skip_percent pat q \<le> length pat)"
      by (induction pat q rule: skip_percent.induct)
         (subst (1 2) skip_percent.simps, auto simp: cstr_at_def split: if_splits)
  qed
  from 2 have "p < length pat" by (auto simp: cstr_at_def split: if_splits)
  moreover have "skip_percent pat p = skip_percent pat (Suc p)"
    using 2 by (subst skip_percent.simps) simp
  moreover have "Suc p \<le> skip_percent pat (Suc p)" "skip_percent pat (Suc p) \<le> length pat"
    using skip[of "Suc p"] \<open>p < length pat\<close> by auto
  ultimately show ?case
    by (auto split: option.splits)
next
  case (3 tx pat t p bt)
  then have "p < length pat" by (auto simp: cstr_at_def split: if_splits)
  then show ?case by (auto split: option.splits)
next
  case (4 tx pat t p bt x2 tb pb)
  then have "t < length tx" by (auto simp: cstr_at_def split: if_splits)
  with 4 show ?case by auto
qed

declare pattern_match_loop.simps [simp del]

definition pattern_match :: "string \<Rightarrow> string \<Rightarrow> bool" where
  "pattern_match text pat = pattern_match_loop text pat 0 0 None"

section \<open>Static state and the backend\<close>

text \<open>
  \<open>elog(LOG, ...)\<close> and \<open>elog(WARNING, ...)\<close> report and return; the reports are kept
  in \<open>server_log\<close>, each as its level and its message with the formatted arguments.
\<close>

datatype elevel = LOG | WARNING

datatype log_msg =
    SPI_connect_failed
  | Failed_to_load_rules int
  | Loaded_rules nat
  | Applied_overrides nat int64
  | Skipping_non_scalar string

text \<open>
  The static variables of the file. \<open>cached_rules\<close> is \<open>None\<close> for \<open>NULL\<close>;
  \<open>cache_context\<close> tells whether the memory context exists. \<open>server_log\<close> is the
  output of \<open>elog\<close>. \<open>load_rules_calls\<close> is not a variable of the program: it
  counts the entries into \<open>load_rules\<close>, so that "a refresh happened" can be stated.
  \<open>prev_planner_hook\<close>, assigned once by \<open>_PG_init\<close>, is a field of the host below.
\<close>

record po_state =
  po_enabled :: bool
  po_debug :: bool
  po_cache_ttl :: int
  cached_rules :: "OverrideRule list option"
  cached_rules_count :: nat
  cache_loaded_at :: TimestampTz
  cache_context :: bool
  loading_rules :: bool
  server_log :: "(elevel \<times> log_msg) list"
  load_rules_calls :: nat

definition elog :: "elevel \<Rightarrow> log_msg \<Rightarrow> po_state \<Rightarrow> po_state" where
  "elog lvl msg s = s\<lparr>server_log := server_log s @ [(lvl, msg)]\<rparr>"

text \<open>
  A JSONB value as \<open>JsonbIteratorNext\<close> walks it: the tokens it returns before
  \<open>WJB_DONE\<close>. A key token carries the key string; a numeric value carries the text
  \<open>numeric_out\<close> prints for it.
\<close>

datatype JsonbValue = jbvNull | jbvString string | jbvNumeric string | jbvBool bool | jbvBinary

datatype JsonbIteratorToken =
    WJB_KEY string
  | WJB_VALUE JsonbValue
  | WJB_ELEM JsonbValue
  | WJB_BEGIN_ARRAY
  | WJB_END_ARRAY
  | WJB_BEGIN_OBJECT
  | WJB_END_OBJECT

text \<open>A row of the rule query: its four columns, \<open>None\<close> for SQL NULL.\<close>

record SPI_row =
  col_query_id :: "int64 option"
  col_query_pattern :: "string option"
  col_gucs :: "JsonbIteratorToken list option"
  col_priority :: "32 word option"

text \<open>
  The two statements \<open>load_rules\<close> runs: the catalog lookup of
  \<open>plan_override.override_rules\<close>, and the selection of the enabled rules ordered by
  descending priority.
\<close>

datatype spi_query = Select_rules_table_exists | Select_enabled_rules

definition SPI_OK_CONNECT :: int where "SPI_OK_CONNECT = 1"
definition SPI_OK_SELECT :: int where "SPI_OK_SELECT = 5"

text \<open>
  The backend. Every operation takes the world and returns the new one; an operation
  that can \<open>ereport(ERROR)\<close> returns \<open>Inl\<close> then. \<open>GetConfigOption\<close> is called with
  \<open>missing_ok = false\<close> and so fails on an unknown name; its value is \<open>None\<close> for a
  \<open>NULL\<close> result. \<open>set_config_option\<close> is always called with \<open>PGC_USERSET\<close>,
  \<open>PGC_S_SESSION\<close>, \<open>GUC_ACTION_SET\<close>, \<open>changeVal = true\<close> and \<open>elevel = 0\<close>: it
  assigns or raises. \<open>SPI_execute\<close> returns its result code and the tuples of
  \<open>SPI_tuptable\<close>, whose number is \<open>SPI_processed\<close>. The planners and SPI act on the
  world only: the statements SPI plans on the way are not traced back into the hook,
  and the three variables \<open>pg_plan_override.enabled\<close>, \<open>.debug\<close> and \<open>.cache_ttl\<close>
  are read from \<open>po_state\<close>, which no backend operation writes.
\<close>

type_synonym ('w, 'e, 'a, 'p) planner = "'a plan_request \<Rightarrow> 'w \<Rightarrow> ('e + 'p) \<times> 'w"

record ('w, 'e, 'a, 'p) host =
  prev_planner_hook :: "('w, 'e, 'a, 'p) planner option"
  standard_planner :: "('w, 'e, 'a, 'p) planner"
  GetConfigOption :: "'w \<Rightarrow> string \<Rightarrow> 'e + string option"
  set_config_option :: "'w \<Rightarrow> string \<Rightarrow> string option \<Rightarrow> 'e + 'w"
  GetCurrentTimestamp :: "'w \<Rightarrow> TimestampTz"
  SPI_connect :: "'w \<Rightarrow> int \<times> 'w"
  SPI_execute :: "spi_query \<Rightarrow> bool \<Rightarrow> nat \<Rightarrow> 'w \<Rightarrow> ('e + int \<times> SPI_row list) \<times> 'w"
  SPI_finish :: "'w \<Rightarrow> 'w"

text \<open>
  Modelled from the spec: \<open>TimestampDifferenceExceeds\<close> is a backend function
  (utils/timestamp.h), not in the repository. It tells whether at least \<open>msec\<close>
  milliseconds lie between two timestamps, as the spec's staleness test
  \<open>now - loadedAt >= ttlSeconds\<close> reads it.
\<close>

definition TimestampDifferenceExceeds :: "TimestampTz \<Rightarrow> TimestampTz \<Rightarrow> int \<Rightarrow> bool" where
  "TimestampDifferenceExceeds start_time stop_time msec = (stop_time - start_time \<ge> msec * 1000)"

section \<open>find\_matching\_rule\<close>

text \<open>
  \<open>for (i = 0; i < cached_rules_count; i++) if (test(cached_rules[i])) return &cached_rules[i];\<close>
  Both passes are this loop, each with its own test.
\<close>

function scan_rules ::
  "(OverrideRule \<Rightarrow> bool) \<Rightarrow> OverrideRule list \<Rightarrow> nat \<Rightarrow> nat \<Rightarrow> OverrideRule option" where
  "scan_rules test rules n i =
     (if i < n then
        (if test (rules ! i) then Some (rules ! i) else scan_rules test rules n (Suc i))
      else None)"
  by pat_completeness auto
termination
  by (relation "measure (\<lambda>(test, rules, n, i). n - i)") auto

declare scan_rules.simps [simp del]

definition find_matching_rule :: "po_state \<Rightarrow> 'a plan_request \<Rightarrow> OverrideRule option" where
  "find_matching_rule s parse =
     (case cached_rules s of
        None \<Rightarrow> None
      | Some rules \<Rightarrow>
          if cached_rules_count s = 0 then None
          else
            (case (if queryId parse \<noteq> 0
                   then scan_rules (\<lambda>r. query_id r \<noteq> 0 \<and> query_id r = queryId parse)
                          rules (cached_rules_count s) 0
                   else None) of
               Some rule \<Rightarrow> Some rule
             | None \<Rightarrow>
                 (case query_string parse of
                    None \<Rightarrow> None
                  | Some text \<Rightarrow>
                      scan_rules
                        (\<lambda>r. case query_pattern r of
                                None \<Rightarrow> False
                              | Some pat \<Rightarrow> pattern_match text pat)
                        rules (cached_rules_count s) 0)))"

section \<open>parse\_jsonb\_gucs and load\_rules\<close>

text \<open>
  \<open>a[i] = v\<close> on an array filled from the front: \<open>i\<close> is never past the first free
  slot.
\<close>

definition array_store :: "'a list \<Rightarrow> nat \<Rightarrow> 'a \<Rightarrow> 'a list" where
  "array_store xs i v = (if i < length xs then xs[i := v] else xs @ [v])"

fun parse_jsonb_loop ::
  "JsonbIteratorToken list \<Rightarrow> string list \<Rightarrow> string list \<Rightarrow> nat \<Rightarrow> po_state
     \<Rightarrow> (string list \<times> string list \<times> nat) \<times> po_state" where
  "parse_jsonb_loop [] names vals count s = ((names, vals, count), s)"
| "parse_jsonb_loop (WJB_KEY key # toks) names vals count s =
     parse_jsonb_loop toks (array_store names count key) vals count s"
| "parse_jsonb_loop (WJB_VALUE v # toks) names vals count s =
     (case v of
        jbvString str \<Rightarrow>
          parse_jsonb_loop toks names (array_store vals count str) (Suc count) s
      | jbvBool b \<Rightarrow>
          parse_jsonb_loop toks names
            (array_store vals count (if b then ''on'' else ''off'')) (Suc count) s
      | jbvNumeric num \<Rightarrow>
          parse_jsonb_loop toks names (array_store vals count num) (Suc count) s
      | _ \<Rightarrow>
          parse_jsonb_loop toks names vals count
            (elog WARNING (Skipping_non_scalar (names ! count)) s))"
| "parse_jsonb_loop (_ # toks) names vals count s = parse_jsonb_loop toks names vals count s"

definition parse_jsonb_gucs ::
  "JsonbIteratorToken list \<Rightarrow> po_state \<Rightarrow> (string list \<times> string list \<times> nat) \<times> po_state" where
  "parse_jsonb_gucs jb s = parse_jsonb_loop jb [] [] 0 s"

text \<open>The body of the loop over the tuples: one \<open>OverrideRule\<close> from one row.\<close>

definition rule_of_tuple :: "SPI_row \<Rightarrow> po_state \<Rightarrow> OverrideRule \<times> po_state" where
  "rule_of_tuple tuple s =
     (let ((names, vals, n), s') =
            (case col_gucs tuple of
               Some jb \<Rightarrow> parse_jsonb_gucs jb s
             | None \<Rightarrow> (([], [], 0), s))
      in (\<lparr>query_id = (case col_query_id tuple of None \<Rightarrow> 0 | Some d \<Rightarrow> d),
           query_pattern = col_query_pattern tuple,
           guc_names = names,
           guc_values = vals,
           num_gucs = n,
           priority = (case col_priority tuple of None \<Rightarrow> 0 | Some d \<Rightarrow> d)\<rparr>, s'))"

fun rules_of_tuples :: "SPI_row list \<Rightarrow> po_state \<Rightarrow> OverrideRule list \<times> po_state" where
  "rules_of_tuples [] s = ([], s)"
| "rules_of_tuples (tuple # tuples) s =
     (case rule_of_tuple tuple s of
        (rule, s') \<Rightarrow>
          (case rules_of_tuples tuples s' of
             (rules, s'') \<Rightarrow> (rule # rules, s'')))"

definition free_rule_cache :: "po_state \<Rightarrow> po_state" where
  "free_rule_cache s = s\<lparr>cached_rules := None, cached_rules_count := 0\<rparr>"

text \<open>
  \<open>load_rules\<close>. The result is \<open>Inr ()\<close> when the function returns and \<open>Inl e\<close> when
  an error \<open>e\<close> raised by \<open>SPI_execute\<close> leaves it; nothing in \<open>load_rules\<close> catches.
\<close>

definition load_rules ::
  "('w, 'e, 'a, 'p) host \<Rightarrow> po_state \<times> 'w \<Rightarrow> ('e + unit) \<times> po_state \<times> 'w" where
  "load_rules h sw =
     (case sw of (s0, w0) \<Rightarrow>
      let s1 = s0\<lparr>loading_rules := True, load_rules_calls := Suc (load_rules_calls s0)\<rparr>;
          s2 = free_rule_cache s1;
          s3 = s2\<lparr>cache_context := True\<rparr>
      in case SPI_connect h w0 of (rc, w1) \<Rightarrow>
         if rc \<noteq> SPI_OK_CONNECT then
           (Inr (), elog WARNING SPI_connect_failed (s3\<lparr>loading_rules := False\<rparr>), w1)
         else
           (case SPI_execute h Select_rules_table_exists True 1 w1 of
              (Inl err, w2) \<Rightarrow> (Inl err, s3, w2)
            | (Inr (ret, found), w2) \<Rightarrow>
                if ret \<noteq> SPI_OK_SELECT \<or> length found = 0 then
                  (let w3 = SPI_finish h w2
                   in (Inr (),
                       s3\<lparr>cache_loaded_at := GetCurrentTimestamp h w3,
                          loading_rules := False\<rparr>, w3))
                else
                  (case SPI_execute h Select_enabled_rules True 0 w2 of
                     (Inl err, w3) \<Rightarrow> (Inl err, s3, w3)
                   | (Inr (ret, tuples), w3) \<Rightarrow>
                       if ret \<noteq> SPI_OK_SELECT then
                         (let w4 = SPI_finish h w3
                          in (Inr (),
                              elog WARNING (Failed_to_load_rules ret)
                                (s3\<lparr>loading_rules := False\<rparr>), w4))
                       else
                         (let s4 = s3\<lparr>cached_rules_count := length tuples\<rparr>
                          in if cached_rules_count s4 = 0 then
                               (let w4 = SPI_finish h w3
                                in (Inr (),
                                    s4\<lparr>cache_loaded_at := GetCurrentTimestamp h w4,
                                       loading_rules := False\<rparr>, w4))
                             else
                               (case rules_of_tuples tuples s4 of
                                  (rules, s5) \<Rightarrow>
                                    let s6 = s5\<lparr>cached_rules := Some rules\<rparr>;
                                        w4 = SPI_finish h w3;
                                        s7 = s6\<lparr>cache_loaded_at := GetCurrentTimestamp h w4,
                                                loading_rules := False\<rparr>
                                    in (Inr (),
                                        (if po_debug s7
                                         then elog LOG (Loaded_rules (cached_rules_count s7)) s7
                                         else s7), w4))))))"

text \<open>The SQL-callable \<open>pg_plan_override_refresh_cache\<close>: \<open>load_rules\<close>, unconditionally.\<close>

definition pg_plan_override_refresh_cache ::
  "('w, 'e, 'a, 'p) host \<Rightarrow> po_state \<times> 'w \<Rightarrow> ('e + unit) \<times> po_state \<times> 'w" where
  "pg_plan_override_refresh_cache h sw = load_rules h sw"

text \<open>
  The state once \<open>load_rules\<close> has set the flag, dropped the old rules and prepared
  its memory context: the state in which it calls SPI.
\<close>

definition entered :: "po_state \<Rightarrow> po_state" where
  "entered s =
     (free_rule_cache
        (s\<lparr>loading_rules := True, load_rules_calls := Suc (load_rules_calls s)\<rparr>))
       \<lparr>cache_context := True\<rparr>"

section \<open>po\_planner\<close>

text \<open>
  \<open>if (prev_planner_hook) return prev_planner_hook(...); else return standard_planner(...);\<close>
  The wrapped planner: it acts on the world and returns a plan or raises.
\<close>

definition call_planner :: "('w, 'e, 'a, 'p) host \<Rightarrow> ('w, 'e, 'a, 'p) planner" where
  "call_planner h parse w =
     (case prev_planner_hook h of
        Some hook \<Rightarrow> hook parse w
      | None \<Rightarrow> standard_planner h parse w)"

text \<open>The test in front of \<open>load_rules()\<close>; \<open>po_cache_ttl * 1000L\<close> is in milliseconds.\<close>

definition cache_expired :: "('w, 'e, 'a, 'p) host \<Rightarrow> po_state \<Rightarrow> 'w \<Rightarrow> bool" where
  "cache_expired h s w =
     (cache_loaded_at s = 0 \<or>
      TimestampDifferenceExceeds (cache_loaded_at s) (GetCurrentTimestamp h w)
        (po_cache_ttl s * 1000))"

text \<open>
  "Save current GUC values": \<open>saved_values[i] = val ? pstrdup(val) : NULL\<close>, for
  \<open>i\<close> from 0. An error of \<open>GetConfigOption\<close> leaves the loop and the hook.
\<close>

function save_gucs ::
  "('w, 'e, 'a, 'p) host \<Rightarrow> 'w \<Rightarrow> OverrideRule \<Rightarrow> nat \<Rightarrow> string option list
     \<Rightarrow> 'e + string option list" where
  "save_gucs h w rule i saved_values =
     (if i < num_gucs rule then
        (case GetConfigOption h w (guc_names rule ! i) of
           Inl err \<Rightarrow> Inl err
         | Inr val \<Rightarrow> save_gucs h w rule (Suc i) (array_store saved_values i val))
      else Inr saved_values)"
  by pat_completeness auto
termination
  by (relation "measure (\<lambda>(h, w, rule, i, saved_values). num_gucs rule - i)") auto

declare save_gucs.simps [simp del]

text \<open>
  The three assignment loops (set the overrides; restore in the \<open>PG_TRY\<close> block; restore
  in the \<open>PG_CATCH\<close> block) are one loop over \<open>i\<close>, with \<open>rule->guc_values[i]\<close> or
  \<open>saved_values[i]\<close> as the value. An error of \<open>set_config_option\<close> leaves the loop
  with the world as the assignments before it made it.
\<close>

function set_gucs ::
  "('w, 'e, 'a, 'p) host \<Rightarrow> OverrideRule \<Rightarrow> (nat \<Rightarrow> string option) \<Rightarrow> nat \<Rightarrow> 'w
     \<Rightarrow> ('e + unit) \<times> 'w" where
  "set_gucs h rule value_at i w =
     (if i < num_gucs rule then
        (case set_config_option h w (guc_names rule ! i) (value_at i) of
           Inl err \<Rightarrow> (Inl err, w)
         | Inr w' \<Rightarrow> set_gucs h rule value_at (Suc i) w')
      else (Inr (), w))"
  by pat_completeness auto
termination
  by (relation "measure (\<lambda>(h, rule, value_at, i, w). num_gucs rule - i)") auto

declare set_gucs.simps [simp del]

definition apply_overrides ::
  "('w, 'e, 'a, 'p) host \<Rightarrow> OverrideRule \<Rightarrow> 'w \<Rightarrow> ('e + unit) \<times> 'w" where
  "apply_overrides h rule w = set_gucs h rule (\<lambda>i. Some (guc_values rule ! i)) 0 w"

definition restore_gucs ::
  "('w, 'e, 'a, 'p) host \<Rightarrow> OverrideRule \<Rightarrow> string option list \<Rightarrow> 'w \<Rightarrow> ('e + unit) \<times> 'w" where
  "restore_gucs h rule saved_values w = set_gucs h rule (\<lambda>i. saved_values ! i) 0 w"

text \<open>
  The \<open>PG_CATCH\<close> block: restore, then \<open>PG_RE_THROW()\<close> of the error caught. An error
  raised by the restore loop itself leaves the block in place of the rethrow.
\<close>

definition pg_catch ::
  "('w, 'e, 'a, 'p) host \<Rightarrow> OverrideRule \<Rightarrow> string option list \<Rightarrow> 'e \<Rightarrow> 'w \<Rightarrow> ('e + 'p) \<times> 'w" where
  "pg_catch h rule saved_values caught w =
     (case restore_gucs h rule saved_values w of
        (Inl err, w') \<Rightarrow> (Inl err, w')
      | (Inr u, w') \<Rightarrow> (Inl caught, w'))"

text \<open>
  \<open>PG_TRY(); { result = planner(...); restore } PG_CATCH(); { restore; PG_RE_THROW(); } PG_END_TRY();\<close>
  An error of the planner or of the restore loop inside the \<open>PG_TRY\<close> block enters the
  \<open>PG_CATCH\<close> block.
\<close>

definition pg_try ::
  "('w, 'e, 'a, 'p) host \<Rightarrow> OverrideRule \<Rightarrow> string option list \<Rightarrow> 'a plan_request \<Rightarrow> 'w
     \<Rightarrow> ('e + 'p) \<times> 'w" where
  "pg_try h rule saved_values parse w =
     (case call_planner h parse w of
        (Inl err, w1) \<Rightarrow> pg_catch h rule saved_values err w1
      | (Inr result, w1) \<Rightarrow>
          (case restore_gucs h rule saved_values w1 of
             (Inl err, w2) \<Rightarrow> pg_catch h rule saved_values err w2
           | (Inr u, w2) \<Rightarrow> (Inr result, w2)))"

text \<open>
  The hook from "Save current GUC values" on, for the rule found: save, set, the
  optional debug line, and the protected planner call.
\<close>

definition plan_with_rule ::
  "('w, 'e, 'a, 'p) host \<Rightarrow> OverrideRule \<Rightarrow> 'a plan_request \<Rightarrow> po_state \<times> 'w
     \<Rightarrow> ('e + 'p) \<times> po_state \<times> 'w" where
  "plan_with_rule h rule parse sw =
     (case sw of (s, w) \<Rightarrow>
        (case save_gucs h w rule 0 [] of
           Inl err \<Rightarrow> (Inl err, s, w)
         | Inr saved_values \<Rightarrow>
             (case apply_overrides h rule w of
                (Inl err, w1) \<Rightarrow> (Inl err, s, w1)
              | (Inr u, w1) \<Rightarrow>
                  let s1 = (if po_debug s
                            then elog LOG (Applied_overrides (num_gucs rule) (query_id rule)) s
                            else s)
                  in (case pg_try h rule saved_values parse w1 of
                        (res, w2) \<Rightarrow> (res, s1, w2)))))"

text \<open>"Refresh cache if TTL expired".\<close>

definition refresh_if_expired ::
  "('w, 'e, 'a, 'p) host \<Rightarrow> po_state \<times> 'w \<Rightarrow> ('e + unit) \<times> po_state \<times> 'w" where
  "refresh_if_expired h sw =
     (case sw of (s, w) \<Rightarrow>
        if cache_expired h s w then load_rules h (s, w) else (Inr (), s, w))"

definition po_planner ::
  "('w, 'e, 'a, 'p) host \<Rightarrow> 'a plan_request \<Rightarrow> po_state \<times> 'w \<Rightarrow> ('e + 'p) \<times> po_state \<times> 'w" where
  "po_planner h parse sw =
     (case sw of (s, w) \<Rightarrow>
        if \<not> po_enabled s \<or> loading_rules s then
          (case call_planner h parse w of (res, w') \<Rightarrow> (res, s, w'))
        else
          (case refresh_if_expired h (s, w) of
             (Inl err, s1, w1) \<Rightarrow> (Inl err, s1, w1)
           | (Inr u, s1, w1) \<Rightarrow>
               (case find_matching_rule s1 parse of
                  None \<Rightarrow> (case call_planner h parse w1 of (res, w') \<Rightarrow> (res, s1, w'))
                | Some rule \<Rightarrow> plan_with_rule h rule parse (s1, w1))))"

section \<open>What the specification says\<close>

text \<open>
  The matcher of the specification, on the text and the pattern as lists: \<open>%\<close> stands
  for any run of characters (also none), \<open>_\<close> for exactly one character, every other
  character for itself, and the pattern covers the whole text.
\<close>

fun like_spec :: "string \<Rightarrow> string \<Rightarrow> bool" where
  "like_spec [] [] = True"
| "like_spec (c # cs) [] = False"
| "like_spec [] (q # qs) = (q = CHR ''%'' \<and> like_spec [] qs)"
| "like_spec (c # cs) (q # qs) =
     (if q = CHR ''%'' then like_spec (c # cs) qs \<or> like_spec cs (q # qs)
      else (q = CHR ''_'' \<or> q = c) \<and> like_spec cs qs)"

subsection \<open>The invariant of the matcher's loop\<close>

text \<open>
  The invariant of the loop of \<open>pattern_match\<close>, for the proof that it computes
  \<open>like_spec\<close>. \<open>suffix_like t p\<close>: the text from \<open>t\<close> matches the pattern from \<open>p\<close>.
  \<open>segment_ok tb pb len\<close>: the \<open>len\<close> pattern characters from \<open>pb\<close> hold no \<open>%\<close> and
  match the text from \<open>tb\<close> one by one. Without a backtrack point the whole match
  stands or falls with the match from \<open>(t, p)\<close>; with one, it stands or falls with a
  match of the pattern from \<open>p_backtrack\<close> somewhere at or after \<open>t_backtrack\<close>, and
  the pattern between \<open>p_backtrack\<close> and \<open>p\<close> is a segment matched at \<open>t_backtrack\<close>.
\<close>

definition suffix_like :: "string \<Rightarrow> string \<Rightarrow> nat \<Rightarrow> nat \<Rightarrow> bool" where
  "suffix_like text pat t p = like_spec (drop t text) (drop p pat)"

definition segment_ok :: "string \<Rightarrow> string \<Rightarrow> nat \<Rightarrow> nat \<Rightarrow> nat \<Rightarrow> bool" where
  "segment_ok text pat tb pb len =
     (\<forall>i<len. pat ! (pb + i) \<noteq> CHR ''%'' \<and>
              (pat ! (pb + i) = CHR ''_'' \<or> pat ! (pb + i) = text ! (tb + i)))"

definition loop_inv :: "string \<Rightarrow> string \<Rightarrow> nat \<Rightarrow> nat \<Rightarrow> (nat \<times> nat) option \<Rightarrow> bool" where
  "loop_inv text pat t p bt =
     (t \<le> length text \<and> p \<le> length pat \<and>
      (case bt of
         None \<Rightarrow> like_spec text pat = suffix_like text pat t p
       | Some (tb, pb) \<Rightarrow>
           tb \<le> t \<and> pb \<le> p \<and> t - tb = p - pb \<and> segment_ok text pat tb pb (p - pb) \<and>
           like_spec text pat = (\<exists>k. tb \<le> k \<and> k \<le> length text \<and> suffix_like text pat k pb)))"

subsection \<open>The resolver, the cache and the GUC machinery\<close>

text \<open>
  The resolver of the specification over a rule list in stored order: the first rule
  with the request's non-zero identity key; failing that, and with a text present,
  the first rule whose pattern is set and matches.
\<close>

definition identity_rule :: "uint64 \<Rightarrow> OverrideRule \<Rightarrow> bool" where
  "identity_rule k r = (query_id r \<noteq> 0 \<and> query_id r = k)"

definition pattern_rule :: "string \<Rightarrow> OverrideRule \<Rightarrow> bool" where
  "pattern_rule text r =
     (case query_pattern r of None \<Rightarrow> False | Some pat \<Rightarrow> pattern_match text pat)"

definition resolve_spec :: "OverrideRule list \<Rightarrow> uint64 \<Rightarrow> string option \<Rightarrow> OverrideRule option" where
  "resolve_spec rules identityKey rawText =
     (case (if identityKey \<noteq> 0 then find (identity_rule identityKey) rules else None) of
        Some r \<Rightarrow> Some r
      | None \<Rightarrow>
          (case rawText of
             None \<Rightarrow> None
           | Some text \<Rightarrow> find (pattern_rule text) rules))"

text \<open>The rule set the cache holds: none when \<open>cached_rules\<close> is \<open>NULL\<close>.\<close>

definition cached_rule_set :: "po_state \<Rightarrow> OverrideRule list" where
  "cached_rule_set s = (case cached_rules s of None \<Rightarrow> [] | Some rules \<Rightarrow> rules)"

text \<open>The names a rule assigns: \<open>guc_names[i]\<close> for \<open>i < num_gucs\<close>, in order.\<close>

definition rule_names :: "OverrideRule \<Rightarrow> string list" where
  "rule_names rule = map (\<lambda>i. guc_names rule ! i) [0..<num_gucs rule]"

text \<open>The cache as \<open>load_rules\<close> leaves it: the count is the length of the array.\<close>

definition cache_consistent :: "po_state \<Rightarrow> bool" where
  "cache_consistent s =
     (case cached_rules s of None \<Rightarrow> True | Some rules \<Rightarrow> cached_rules_count s = length rules)"

text \<open>
  What is assumed of the GUC machinery where a theorem speaks of the values of
  settings: an assignment leaves every other setting as it reads, and a value that a
  setting has once read as reads back when it is assigned.
\<close>

definition guc_contract :: "('w, 'e, 'a, 'p) host \<Rightarrow> bool" where
  "guc_contract h =
     ((\<forall>w n v w' m. set_config_option h w n v = Inr w' \<longrightarrow> m \<noteq> n \<longrightarrow>
          GetConfigOption h w' m = GetConfigOption h w m) \<and>
      (\<forall>w0 w n v w'. GetConfigOption h w0 n = Inr v \<longrightarrow> set_config_option h w n v = Inr w' \<longrightarrow>
          GetConfigOption h w' n = Inr v))"

section \<open>A small backend for concrete runs\<close>

text \<open>
  A backend small enough to run the hook on: settings by name (\<open>None\<close> for a name
  the backend does not know), names whose assignment it refuses, a clock, and the
  answers of SPI (whether it connects, the rules table if there is one, the result
  code of the rule query, whether the rule query raises). It refuses the value
  \<open>bad\<close> for every setting.
\<close>

datatype demo_error =
    Unrecognized_parameter string
  | Invalid_value string
  | Cannot_change string
  | Planner_failed
  | Query_failed

record demo_world =
  settings :: "string \<Rightarrow> string option option"
  locked :: "string \<Rightarrow> bool"
  clock :: int
  spi_up :: bool
  rules_table :: "SPI_row list option"
  rules_query_ret :: int
  rules_query_raises :: bool

definition demo_get :: "demo_world \<Rightarrow> string \<Rightarrow> demo_error + string option" where
  "demo_get w n = (case settings w n of None \<Rightarrow> Inl (Unrecognized_parameter n) | Some v \<Rightarrow> Inr v)"

definition demo_set :: "demo_world \<Rightarrow> string \<Rightarrow> string option \<Rightarrow> demo_error + demo_world" where
  "demo_set w n v =
     (if settings w n = None then Inl (Unrecognized_parameter n)
      else if locked w n then Inl (Cannot_change n)
      else if v = Some ''bad'' then Inl (Invalid_value n)
      else Inr (w\<lparr>settings := (settings w)(n := Some v)\<rparr>))"

definition demo_execute ::
  "spi_query \<Rightarrow> bool \<Rightarrow> nat \<Rightarrow> demo_world \<Rightarrow> (demo_error + int \<times> SPI_row list) \<times> demo_world" where
  "demo_execute q read_only tcount w =
     (case q of
        Select_rules_table_exists \<Rightarrow>
          (Inr (SPI_OK_SELECT,
                (case rules_table w of
                   None \<Rightarrow> []
                 | Some rows \<Rightarrow> [\<lparr>col_query_id = None, col_query_pattern = None,
                                  col_gucs = None, col_priority = None\<rparr>])), w)
      | Select_enabled_rules \<Rightarrow>
          if rules_query_raises w then (Inl Query_failed, w)
          else (Inr (rules_query_ret w, (case rules_table w of None \<Rightarrow> [] | Some rows \<Rightarrow> rows)), w))"

definition demo_host ::
  "(demo_world, demo_error, unit, nat) planner \<Rightarrow> (demo_world, demo_error, unit, nat) host" where
  "demo_host plan =
     \<lparr>prev_planner_hook = None,
      standard_planner = plan,
      GetConfigOption = demo_get,
      set_config_option = demo_set,
      GetCurrentTimestamp = clock,
      SPI_connect = (\<lambda>w. (if spi_up w then SPI_OK_CONNECT else - 1, w)),
      SPI_execute = demo_execute,
      SPI_finish = (\<lambda>w. w)\<rparr>"

text \<open>Planners for the runs: one returns a plan, one raises.\<close>

definition plan_ok :: "(demo_world, demo_error, unit, nat) planner" where
  "plan_ok parse w = (Inr 7, w)"

definition plan_fails :: "(demo_world, demo_error, unit, nat) planner" where
  "plan_fails parse w = (Inl Planner_failed, w)"

text \<open>
  Planners during which the backend stops accepting changes of \<open>a\<close>: one raises, one
  returns a plan.
\<close>

definition plan_locks_and_fails :: "(demo_world, demo_error, unit, nat) planner" where
  "plan_locks_and_fails parse w = (Inl Planner_failed, w\<lparr>locked := (locked w)(''a'' := True)\<rparr>)"

definition plan_locks_and_returns :: "(demo_world, demo_error, unit, nat) planner" where
  "plan_locks_and_returns parse w = (Inr 7, w\<lparr>locked := (locked w)(''a'' := True)\<rparr>)"

text \<open>
  The state after \<open>_PG_init\<close>, a world with the settings \<open>a = 1\<close>, \<open>b = 2\<close> and
  \<open>c = 3\<close> at time 1000, and a rule store with one rule for the query id 42.
\<close>

definition init_state :: po_state where
  "init_state =
     \<lparr>po_enabled = True, po_debug = False, po_cache_ttl = 60,
      cached_rules = None, cached_rules_count = 0, cache_loaded_at = 0,
      cache_context = False, loading_rules = False, server_log = [], load_rules_calls = 0\<rparr>"

definition rule_row :: "string \<Rightarrow> string \<Rightarrow> SPI_row" where
  "rule_row va vb =
     \<lparr>col_query_id = Some 42, col_query_pattern = None,
      col_gucs = Some [WJB_BEGIN_OBJECT, WJB_KEY ''a'', WJB_VALUE (jbvString va),
                       WJB_KEY ''b'', WJB_VALUE (jbvString vb), WJB_END_OBJECT],
      col_priority = Some 0\<rparr>"

definition demo_world0 :: "SPI_row list option \<Rightarrow> demo_world" where
  "demo_world0 table =
     \<lparr>settings = (\<lambda>n. if n = ''a'' then Some (Some ''1'')
                        else if n = ''b'' then Some (Some ''2'')
                        else if n = ''c'' then Some (Some ''3'') else None),
      locked = (\<lambda>n. False), clock = 1000, spi_up = True,
      rules_table = table, rules_query_ret = SPI_OK_SELECT, rules_query_raises = False\<rparr>"

definition request :: "uint64 \<Rightarrow> string option \<Rightarrow> unit plan_request" where
  "request k text = \<lparr>queryId = k, query_string = text, plan_args = ()\<rparr>"

text \<open>
  Worlds in which SPI cannot connect, in which the rule query returns a failure code,
  and in which it raises; a state whose cache was loaded at time 400 and has expired.
\<close>

definition world_spi_down :: demo_world where
  "world_spi_down = (demo_world0 None)\<lparr>spi_up := False\<rparr>"

definition world_query_fails :: demo_world where
  "world_query_fails = (demo_world0 (Some [rule_row ''on'' ''off'']))\<lparr>rules_query_ret := - 1\<rparr>"

definition world_query_raises :: demo_world where
  "world_query_raises = (demo_world0 (Some [rule_row ''on'' ''off'']))\<lparr>rules_query_raises := True\<rparr>"

definition stale_state :: po_state where
  "stale_state = init_state\<lparr>cache_loaded_at := 400\<rparr>"

text \<open>
  A rule that names \<open>a\<close> twice, a rule whose second value the backend refuses, and
  the state whose cache holds one given rule, loaded at time 990.
\<close>

definition dup_rule :: OverrideRule where
  "dup_rule = \<lparr>query_id = 42, query_pattern = None, guc_names = [''a'', ''b'', ''a''],
                guc_values = [''5'', ''6'', ''7''], num_gucs = 3, priority = 0\<rparr>"

definition bad_rule :: OverrideRule where
  "bad_rule = \<lparr>query_id = 42, query_pattern = None, guc_names = [''a'', ''b''],
                guc_values = [''5'', ''bad''], num_gucs = 2, priority = 0\<rparr>"

definition cached_state :: "OverrideRule \<Rightarrow> po_state" where
  "cached_state rule = init_state\<lparr>cached_rules := Some [rule], cached_rules_count := 1,
                                   cache_loaded_at := 990, cache_context := True\<rparr>"

text \<open>A loaded cache of four rules, in the order of the store.\<close>

definition demo_rules :: "OverrideRule list" where
  "demo_rules =
     [\<lparr>query_id = 0, query_pattern = Some ''sel%'', guc_names = [''a''], guc_values = [''3''],
       num_gucs = 1, priority = 9\<rparr>,
      \<lparr>query_id = 42, query_pattern = None, guc_names = [''a''], guc_values = [''4''],
       num_gucs = 1, priority = 5\<rparr>,
      \<lparr>query_id = 0, query_pattern = Some ''%'', guc_names = [''b''], guc_values = [''5''],
       num_gucs = 1, priority = 1\<rparr>,
      \<lparr>query_id = 42, query_pattern = Some ''%'', guc_names = [''b''], guc_values = [''6''],
       num_gucs = 1, priority = 0\<rparr>]"

definition loaded_state :: po_state where
  "loaded_state = init_state\<lparr>cached_rules := Some demo_rules, cached_rules_count := 4,
                              cache_loaded_at := 990, cache_context := True\<rparr>"

section \<open>Lemmas about load\_rules\<close>

lemma parse_jsonb_loop_only_log:
  "snd (parse_jsonb_loop toks names vals count s) =
     s\<lparr>server_log := server_log (snd (parse_jsonb_loop toks names vals count s))\<rparr>"
proof (induction toks names vals count s rule: parse_jsonb_loop.induct)
  case (3 v toks names vals count s)
  show ?case
  proof (cases v)
    case jbvNull
    with 3(1) show ?thesis by (simp add: elog_def)
  next
    case jbvBinary
    with 3(5) show ?thesis by (simp add: elog_def)
  qed (use 3 in auto)
qed auto

lemma rule_of_tuple_only_log:
  "snd (rule_of_tuple tuple s) = s\<lparr>server_log := server_log (snd (rule_of_tuple tuple s))\<rparr>"
proof (cases "col_gucs tuple")
  case None
  then show ?thesis by (simp add: rule_of_tuple_def)
next
  case (Some jb)
  have "snd (rule_of_tuple tuple s) = snd (parse_jsonb_loop jb [] [] 0 s)"
    using Some by (simp add: rule_of_tuple_def parse_jsonb_gucs_def split: prod.splits)
  then show ?thesis using parse_jsonb_loop_only_log[of jb "[]" "[]" 0 s] by simp
qed

lemma rules_of_tuples_only_log:
  "snd (rules_of_tuples tuples s) = s\<lparr>server_log := server_log (snd (rules_of_tuples tuples s))\<rparr>"
proof (induction tuples arbitrary: s)
  case Nil
  show ?case by simp
next
  case (Cons tuple tuples)
  obtain rule s' where r: "rule_of_tuple tuple s = (rule, s')" by (cases "rule_of_tuple tuple s")
  have s': "s' = s\<lparr>server_log := server_log s'\<rparr>"
    using rule_of_tuple_only_log[of tuple s] r by simp
  have "snd (rules_of_tuples (tuple # tuples) s) = snd (rules_of_tuples tuples s')"
    using r by (simp split: prod.splits)
  moreover have "snd (rules_of_tuples tuples s') = s'\<lparr>server_log := server_log (snd (rules_of_tuples tuples s'))\<rparr>"
    using Cons.IH by blast
  ultimately show ?case using s'
    by (metis po_state.update_convs(9) po_state.surjective)
qed

lemma rules_of_tuples_length: "length (fst (rules_of_tuples tuples s)) = length tuples"
proof (induction tuples arbitrary: s)
  case (Cons tuple tuples)
  obtain rule s' where r: "rule_of_tuple tuple s = (rule, s')" by (cases "rule_of_tuple tuple s")
  then show ?case using Cons.IH[of s'] by (cases "rules_of_tuples tuples s'") simp
qed simp


lemma rules_of_tuples_fields:
  assumes "rules_of_tuples tuples s = (rules, s')"
  shows "s' = s\<lparr>server_log := server_log s'\<rparr>" and "length rules = length tuples"
  using rules_of_tuples_only_log[of tuples s] rules_of_tuples_length[of tuples s] assms by simp_all

lemma rules_of_tuples_keeps:
  assumes "rules_of_tuples tuples s = (rules, s')"
  shows "load_rules_calls s' = load_rules_calls s"
    and "loading_rules s' = loading_rules s"
    and "po_enabled s' = po_enabled s"
    and "po_debug s' = po_debug s"
    and "po_cache_ttl s' = po_cache_ttl s"
    and "cached_rules s' = cached_rules s"
    and "cached_rules_count s' = cached_rules_count s"
    and "cache_loaded_at s' = cache_loaded_at s"
proof -
  have e: "s' = s\<lparr>server_log := server_log s'\<rparr>"
    by (rule rules_of_tuples_fields(1)[OF assms])
  show "load_rules_calls s' = load_rules_calls s" by (subst e) simp
  show "loading_rules s' = loading_rules s" by (subst e) simp
  show "po_enabled s' = po_enabled s" by (subst e) simp
  show "po_debug s' = po_debug s" by (subst e) simp
  show "po_cache_ttl s' = po_cache_ttl s" by (subst e) simp
  show "cached_rules s' = cached_rules s" by (subst e) simp
  show "cached_rules_count s' = cached_rules_count s" by (subst e) simp
  show "cache_loaded_at s' = cache_loaded_at s" by (subst e) simp
qed

lemma load_rules_connect_failed:
  assumes "SPI_connect h w = (rc, w1)" "rc \<noteq> SPI_OK_CONNECT"
  shows "load_rules h (s, w) =
           (Inr (), elog WARNING SPI_connect_failed ((entered s)\<lparr>loading_rules := False\<rparr>), w1)"
  using assms by (simp add: load_rules_def Let_def entered_def)

lemma load_rules_lookup_raised:
  assumes "SPI_connect h w = (SPI_OK_CONNECT, w1)"
    and "SPI_execute h Select_rules_table_exists True 1 w1 = (Inl err, w2)"
  shows "load_rules h (s, w) = (Inl err, entered s, w2)"
  using assms by (simp add: load_rules_def Let_def entered_def)

lemma load_rules_no_table:
  assumes "SPI_connect h w = (SPI_OK_CONNECT, w1)"
    and "SPI_execute h Select_rules_table_exists True 1 w1 = (Inr (ret, found), w2)"
    and "ret \<noteq> SPI_OK_SELECT \<or> length found = 0"
  shows "load_rules h (s, w) =
           (Inr (), (entered s)\<lparr>cache_loaded_at := GetCurrentTimestamp h (SPI_finish h w2),
                                 loading_rules := False\<rparr>, SPI_finish h w2)"
  using assms by (simp add: load_rules_def Let_def entered_def)

lemma load_rules_query_raised:
  assumes "SPI_connect h w = (SPI_OK_CONNECT, w1)"
    and "SPI_execute h Select_rules_table_exists True 1 w1 = (Inr (SPI_OK_SELECT, found), w2)"
    and "length found \<noteq> 0"
    and "SPI_execute h Select_enabled_rules True 0 w2 = (Inl err, w3)"
  shows "load_rules h (s, w) = (Inl err, entered s, w3)"
  using assms by (simp add: load_rules_def Let_def entered_def)

lemma load_rules_query_failed:
  assumes "SPI_connect h w = (SPI_OK_CONNECT, w1)"
    and "SPI_execute h Select_rules_table_exists True 1 w1 = (Inr (SPI_OK_SELECT, found), w2)"
    and "length found \<noteq> 0"
    and "SPI_execute h Select_enabled_rules True 0 w2 = (Inr (ret, tuples), w3)"
    and "ret \<noteq> SPI_OK_SELECT"
  shows "load_rules h (s, w) =
           (Inr (), elog WARNING (Failed_to_load_rules ret) ((entered s)\<lparr>loading_rules := False\<rparr>),
            SPI_finish h w3)"
  using assms by (simp add: load_rules_def Let_def entered_def)

lemma load_rules_no_rules:
  assumes "SPI_connect h w = (SPI_OK_CONNECT, w1)"
    and "SPI_execute h Select_rules_table_exists True 1 w1 = (Inr (SPI_OK_SELECT, found), w2)"
    and "length found \<noteq> 0"
    and "SPI_execute h Select_enabled_rules True 0 w2 = (Inr (SPI_OK_SELECT, []), w3)"
  shows "load_rules h (s, w) =
           (Inr (), (entered s)\<lparr>cached_rules_count := 0,
                                 cache_loaded_at := GetCurrentTimestamp h (SPI_finish h w3),
                                 loading_rules := False\<rparr>, SPI_finish h w3)"
  using assms by (simp add: load_rules_def Let_def entered_def)

lemma load_rules_loaded:
  assumes "SPI_connect h w = (SPI_OK_CONNECT, w1)"
    and "SPI_execute h Select_rules_table_exists True 1 w1 = (Inr (SPI_OK_SELECT, found), w2)"
    and "length found \<noteq> 0"
    and "SPI_execute h Select_enabled_rules True 0 w2 = (Inr (SPI_OK_SELECT, tuples), w3)"
    and "tuples \<noteq> []"
    and "rules_of_tuples tuples ((entered s)\<lparr>cached_rules_count := length tuples\<rparr>) = (rules, s5)"
  shows "load_rules h (s, w) =
           (Inr (),
            (let s7 = s5\<lparr>cached_rules := Some rules,
                            cache_loaded_at := GetCurrentTimestamp h (SPI_finish h w3),
                            loading_rules := False\<rparr>
             in if po_debug s7 then elog LOG (Loaded_rules (cached_rules_count s7)) s7 else s7),
            SPI_finish h w3)"
  using assms by (simp add: load_rules_def Let_def entered_def)


lemma load_rules_cases:
  obtains
    (connect_failed) w1 where
      "load_rules h (s, w) =
         (Inr (), elog WARNING SPI_connect_failed ((entered s)\<lparr>loading_rules := False\<rparr>), w1)"
  | (raised) err w' where "load_rules h (s, w) = (Inl err, entered s, w')"
  | (no_table) w' where
      "load_rules h (s, w) =
         (Inr (), (entered s)\<lparr>cache_loaded_at := GetCurrentTimestamp h w',
                               loading_rules := False\<rparr>, w')"
  | (query_failed) ret w' where
      "load_rules h (s, w) =
         (Inr (), elog WARNING (Failed_to_load_rules ret) ((entered s)\<lparr>loading_rules := False\<rparr>), w')"
  | (no_rules) w' where
      "load_rules h (s, w) =
         (Inr (), (entered s)\<lparr>cached_rules_count := 0,
                               cache_loaded_at := GetCurrentTimestamp h w',
                               loading_rules := False\<rparr>, w')"
  | (loaded) tuples rules s5 w' where
      "rules_of_tuples tuples ((entered s)\<lparr>cached_rules_count := length tuples\<rparr>) = (rules, s5)"
      "tuples \<noteq> []"
      "load_rules h (s, w) =
         (Inr (),
          (let s7 = s5\<lparr>cached_rules := Some rules,
                          cache_loaded_at := GetCurrentTimestamp h w',
                          loading_rules := False\<rparr>
           in if po_debug s7 then elog LOG (Loaded_rules (cached_rules_count s7)) s7 else s7),
          w')"
proof -
  obtain rc w1 where c: "SPI_connect h w = (rc, w1)" by (cases "SPI_connect h w")
  show thesis
  proof (cases "rc = SPI_OK_CONNECT")
    case False
    then show thesis using load_rules_connect_failed[OF c] connect_failed by blast
  next
    case True
    with c have c: "SPI_connect h w = (SPI_OK_CONNECT, w1)" by simp
    obtain r1 w2 where e1: "SPI_execute h Select_rules_table_exists True 1 w1 = (r1, w2)"
      by (cases "SPI_execute h Select_rules_table_exists True 1 w1")
    show thesis
    proof (cases r1)
      case (Inl err)
      then show thesis using load_rules_lookup_raised[OF c] e1 raised by blast
    next
      case (Inr x)
      obtain ret found where x: "x = (ret, found)" by (cases x)
      with Inr e1 have e1: "SPI_execute h Select_rules_table_exists True 1 w1 = (Inr (ret, found), w2)"
        by simp
      show thesis
      proof (cases "ret \<noteq> SPI_OK_SELECT \<or> length found = 0")
        case True
        then show thesis using load_rules_no_table[OF c e1] no_table by blast
      next
        case False
        with e1 have e1: "SPI_execute h Select_rules_table_exists True 1 w1 = (Inr (SPI_OK_SELECT, found), w2)"
          and f: "length found \<noteq> 0" by simp_all
        obtain r2 w3 where e2: "SPI_execute h Select_enabled_rules True 0 w2 = (r2, w3)"
          by (cases "SPI_execute h Select_enabled_rules True 0 w2")
        show thesis
        proof (cases r2)
          case (Inl err)
          then show thesis using load_rules_query_raised[OF c e1 f] e2 raised by blast
        next
          case (Inr y)
          obtain ret2 tuples where y: "y = (ret2, tuples)" by (cases y)
          with Inr e2 have e2: "SPI_execute h Select_enabled_rules True 0 w2 = (Inr (ret2, tuples), w3)"
            by simp
          show thesis
          proof (cases "ret2 = SPI_OK_SELECT")
            case False
            then show thesis using load_rules_query_failed[OF c e1 f e2] query_failed by blast
          next
            case True
            with e2 have e2: "SPI_execute h Select_enabled_rules True 0 w2 = (Inr (SPI_OK_SELECT, tuples), w3)"
              by simp
            show thesis
            proof (cases "tuples = []")
              case True
              then show thesis using load_rules_no_rules[OF c e1 f] e2 no_rules by blast
            next
              case False
              obtain rules s5 where
                r: "rules_of_tuples tuples ((entered s)\<lparr>cached_rules_count := length tuples\<rparr>) = (rules, s5)"
                by (cases "rules_of_tuples tuples ((entered s)\<lparr>cached_rules_count := length tuples\<rparr>)")
              show thesis using load_rules_loaded[OF c e1 f e2 False r] loaded[OF r False] by blast
            qed
          qed
        qed
      qed
    qed
  qed
qed

lemma load_rules_calls_Suc:
  assumes "load_rules h (s, w) = (r, s', w')"
  shows "load_rules_calls s' = Suc (load_rules_calls s)"
proof (cases rule: load_rules_cases[of h s w])
  case (loaded tuples rules s5 w')
  have "load_rules_calls s5 = Suc (load_rules_calls s)"
    using rules_of_tuples_keeps(1)[OF loaded(1)] by (simp add: entered_def free_rule_cache_def)
  then show ?thesis using assms loaded(3) by (auto simp: Let_def elog_def split: if_splits)
qed (use assms in \<open>auto simp: elog_def entered_def free_rule_cache_def\<close>)

lemma load_rules_cache_consistent:
  assumes "load_rules h (s, w) = (r, s', w')"
  shows "cache_consistent s'"
proof (cases rule: load_rules_cases[of h s w])
  case (loaded tuples rules s5 w')
  have "cached_rules_count s5 = length rules"
    using rules_of_tuples_keeps(7)[OF loaded(1)] rules_of_tuples_fields(2)[OF loaded(1)] by simp
  then show ?thesis using assms loaded(3)
    by (auto simp: Let_def elog_def cache_consistent_def split: if_splits)
qed (use assms in \<open>auto simp: elog_def entered_def free_rule_cache_def cache_consistent_def\<close>)

section \<open>Lemmas about find\_matching\_rule\<close>

lemma scan_rules_find:
  "n \<le> length rules \<Longrightarrow> scan_rules test rules n i = find test (drop i (take n rules))"
proof (induction test rules n i rule: scan_rules.induct)
  case (1 test rules n i)
  show ?case
  proof (cases "i < n")
    case True
    with 1(2) have "drop i (take n rules) = rules ! i # drop (Suc i) (take n rules)"
      by (simp add: Cons_nth_drop_Suc[symmetric])
    with True 1 show ?thesis by (subst scan_rules.simps) simp
  next
    case False
    then show ?thesis by (subst scan_rules.simps) simp
  qed
qed

lemma find_matching_rule_resolve:
  assumes "cache_consistent s"
  shows "find_matching_rule s parse =
           resolve_spec (cached_rule_set s) (queryId parse) (query_string parse)"
proof (cases "cached_rules s")
  case None
  then show ?thesis
    by (simp add: find_matching_rule_def resolve_spec_def cached_rule_set_def split: option.splits)
next
  case (Some rules)
  with assms have n: "cached_rules_count s = length rules" by (simp add: cache_consistent_def)
  have id: "(\<lambda>r. query_id r \<noteq> 0 \<and> query_id r = queryId parse) = identity_rule (queryId parse)"
    by (simp add: identity_rule_def fun_eq_iff)
  have pat: "\<And>text. (\<lambda>r. case query_pattern r of None \<Rightarrow> False | Some pat \<Rightarrow> pattern_match text pat)
               = pattern_rule text"
    by (simp add: pattern_rule_def fun_eq_iff)
  show ?thesis
  proof (cases "rules = []")
    case True
    with Some n show ?thesis
      by (simp add: find_matching_rule_def resolve_spec_def cached_rule_set_def split: option.splits)
  next
    case False
    with Some n show ?thesis
      by (simp add: find_matching_rule_def resolve_spec_def cached_rule_set_def scan_rules_find id pat
               split: option.splits)
  qed
qed

section \<open>Helper lemmas about the hook\<close>

lemma plan_with_rule_calls:
  "load_rules_calls (fst (snd (plan_with_rule h rule parse (s, w)))) = load_rules_calls s"
  by (simp add: plan_with_rule_def elog_def Let_def split: sum.splits prod.splits)

lemma plan_with_rule_flag:
  "loading_rules (fst (snd (plan_with_rule h rule parse (s, w)))) = loading_rules s"
  by (simp add: plan_with_rule_def elog_def Let_def split: sum.splits prod.splits)

lemma triple_eq: "fst x = a \<Longrightarrow> x = (a, fst (snd x), snd (snd x))"
  by (cases x) auto

section \<open>The disabled and the re-entrant fast path\<close>

text \<open>
  C9. With \<open>pg_plan_override.enabled\<close> off, \<open>po_planner\<close> is the wrapped planner and
  nothing else: its outcome and its world are the wrapped planner's, and the static
  state (the rule cache, its load time, the count of \<open>load_rules\<close> entries, the log) is
  untouched, whatever the cache holds and whatever the request is. No rule is looked
  up, no setting is read or assigned, and no error arises but the planner's own.
\<close>

theorem po_planner_disabled:
  assumes "\<not> po_enabled s"
  shows "po_planner h parse (s, w) = (fst (call_planner h parse w), s, snd (call_planner h parse w))"
  using assms by (simp add: po_planner_def split: prod.splits)

theorem po_planner_disabled_witness:
  "po_planner (demo_host plan_ok) (request 42 None)
     (init_state\<lparr>po_enabled := False\<rparr>, demo_world0 (Some [rule_row ''on'' ''off'']))
   = (Inr 7, init_state\<lparr>po_enabled := False\<rparr>, demo_world0 (Some [rule_row ''on'' ''off'']))"
  using po_planner_disabled[of "init_state\<lparr>po_enabled := False\<rparr>" "demo_host plan_ok" "request 42 None"
      "demo_world0 (Some [rule_row ''on'' ''off''])"]
  by (simp add: init_state_def call_planner_def demo_host_def plan_ok_def)

text \<open>
  C7. While \<open>loading_rules\<close> is set, a call of \<open>po_planner\<close> is the wrapped planner and
  nothing else, also when the cache has expired: the static state is returned as it
  was, so no \<open>load_rules\<close> is entered (the count of entries is the same), the cache and
  its load time stay, no rule is matched and no setting is assigned. \<open>load_rules\<close>
  sets the flag before its first SPI call: the state in which its statements run,
  which is the state an error raised by one of them leaves behind, has the flag
  set, so a statement of \<open>load_rules\<close> that comes back through the hook takes this
  path.
\<close>

theorem po_planner_while_loading:
  "(loading_rules s \<longrightarrow>
      po_planner h parse (s, w) = (fst (call_planner h parse w), s, snd (call_planner h parse w)))
   \<and> (load_rules h (s0, w0) = (Inl err, s', w') \<longrightarrow> s' = entered s0)
   \<and> loading_rules (entered s0)
   \<and> po_planner h parse (entered s0, w) =
       (fst (call_planner h parse w), entered s0, snd (call_planner h parse w))"
proof -
  have fast: "\<And>s. loading_rules s \<Longrightarrow>
      po_planner h parse (s, w) = (fst (call_planner h parse w), s, snd (call_planner h parse w))"
    by (simp add: po_planner_def split: prod.splits)
  have flag: "loading_rules (entered s0)"
    by (simp add: entered_def free_rule_cache_def)
  have raised: "load_rules h (s0, w0) = (Inl err, s', w') \<longrightarrow> s' = entered s0"
  proof (cases rule: load_rules_cases[of h s0 w0])
    case (loaded tuples rules s5 w')
    then show ?thesis by (auto simp: Let_def)
  qed auto
  from fast[of s] fast[OF flag] flag raised show ?thesis by blast
qed

theorem po_planner_while_loading_witness:
  "po_planner (demo_host plan_ok) (request 42 None)
     (init_state\<lparr>loading_rules := True\<rparr>, demo_world0 (Some [rule_row ''on'' ''off'']))
   = (Inr 7, init_state\<lparr>loading_rules := True\<rparr>, demo_world0 (Some [rule_row ''on'' ''off'']))
   \<and> fst (load_rules (demo_host plan_ok) (init_state, world_query_raises)) = Inl Query_failed
   \<and> loading_rules (fst (snd (load_rules (demo_host plan_ok) (init_state, world_query_raises))))"
proof -
  let ?h = "demo_host plan_ok"
  have r: "fst (load_rules ?h (init_state, world_query_raises)) = Inl Query_failed" by code_simp
  note t = po_planner_while_loading[of "init_state\<lparr>loading_rules := True\<rparr>" ?h "request 42 None"
      "demo_world0 (Some [rule_row ''on'' ''off''])" init_state world_query_raises Query_failed
      "fst (snd (load_rules ?h (init_state, world_query_raises)))"
      "snd (snd (load_rules ?h (init_state, world_query_raises)))"]
  have lr: "loading_rules (init_state\<lparr>loading_rules := True\<rparr>)" by simp
  have cp: "call_planner ?h (request 42 None) (demo_world0 (Some [rule_row ''on'' ''off'']))
              = (Inr 7, demo_world0 (Some [rule_row ''on'' ''off'']))"
    by (simp add: call_planner_def demo_host_def plan_ok_def)
  from t lr have "po_planner ?h (request 42 None)
     (init_state\<lparr>loading_rules := True\<rparr>, demo_world0 (Some [rule_row ''on'' ''off'']))
   = (fst (call_planner ?h (request 42 None) (demo_world0 (Some [rule_row ''on'' ''off'']))),
      init_state\<lparr>loading_rules := True\<rparr>,
      snd (call_planner ?h (request 42 None) (demo_world0 (Some [rule_row ''on'' ''off'']))))"
    by blast
  then have a: "po_planner ?h (request 42 None)
     (init_state\<lparr>loading_rules := True\<rparr>, demo_world0 (Some [rule_row ''on'' ''off'']))
   = (Inr 7, init_state\<lparr>loading_rules := True\<rparr>, demo_world0 (Some [rule_row ''on'' ''off'']))"
    by (simp only: cp fst_conv snd_conv)
  have "fst (snd (load_rules ?h (init_state, world_query_raises))) = entered init_state"
    using t triple_eq[OF r] by blast
  moreover have "loading_rules (entered init_state)" using t by blast
  ultimately show ?thesis using a r by simp
qed

section \<open>load\_rules and the reentrancy flag\<close>

text \<open>
  Each of the five \<open>return\<close> statements of \<open>load_rules\<close> stands behind an assignment
  \<open>loading_rules = false\<close>: whenever \<open>load_rules\<close> returns, the flag is false in the
  state it leaves.
\<close>

lemma load_rules_returns_flag_clear:
  assumes "load_rules h (s, w) = (Inr u, s', w')"
  shows "\<not> loading_rules s'"
proof (cases rule: load_rules_cases[of h s w])
  case (loaded tuples rules s5 w')
  then show ?thesis using assms by (auto simp: Let_def elog_def split: if_splits)
qed (use assms in \<open>auto simp: elog_def\<close>)

text \<open>
  An error raised by \<open>SPI_execute\<close> leaves \<open>load_rules\<close> in the state in which it
  calls SPI.
\<close>

lemma load_rules_raised_entered:
  assumes "load_rules h (s, w) = (Inl err, s1, w1)"
  shows "s1 = entered s"
proof (cases rule: load_rules_cases[of h s w])
  case (loaded tuples rules s5 w')
  then show ?thesis using assms by (auto simp: Let_def)
qed (use assms in auto)

text \<open>
  C10. Whenever \<open>load_rules\<close> returns (by any of its five \<open>return\<close> paths: SPI
  connection failure, no rules table, failure code of the rule query, no rows, rules
  loaded), \<open>loading_rules\<close> is false in the state it leaves. But the flag is not set
  only inside a load in progress. \<open>SPI_execute\<close> is called with the flag set and
  outside any \<open>PG_TRY\<close>, so when it raises, the error leaves \<open>load_rules\<close> past every
  assignment \<open>loading_rules = false\<close>: the flag is set in the state the error leaves
  behind, an enabled call of the hook with an expired cache raises that error and
  leaves that state, and every later call of the hook from it is the wrapped planner
  and nothing else, with the flag still set (no refresh, no rule, no override).
  At the concrete run: from the state after \<open>_PG_init\<close> the five returns leave the flag
  false; when the rule query raises, the hook raises and leaves the flag set; the
  next call, with an expired cache and a rule for the query in the store, returns the
  plan with no \<open>load_rules\<close> entered (the count of entries stays 1), where the same
  call from the state after \<open>_PG_init\<close> loads the rule.
\<close>

theorem load_rules_error_leaves_flag_set:
  "(load_rules h (s, w) = (Inr u, s', w') \<longrightarrow> \<not> loading_rules s')
   \<and> (load_rules h (s, w) = (Inl err, s1, w1) \<longrightarrow>
        loading_rules s1
        \<and> (po_enabled s \<longrightarrow> \<not> loading_rules s \<longrightarrow> cache_expired h s w \<longrightarrow>
             po_planner h parse (s, w) = (Inl err, s1, w1))
        \<and> po_planner h parse2 (s1, w2) =
            (fst (call_planner h parse2 w2), s1, snd (call_planner h parse2 w2)))"
proof -
  have ret: "load_rules h (s, w) = (Inr u, s', w') \<longrightarrow> \<not> loading_rules s'"
  proof
    assume "load_rules h (s, w) = (Inr u, s', w')"
    then show "\<not> loading_rules s'" by (rule load_rules_returns_flag_clear)
  qed
  have raised: "load_rules h (s, w) = (Inl err, s1, w1) \<longrightarrow>
        loading_rules s1
        \<and> (po_enabled s \<longrightarrow> \<not> loading_rules s \<longrightarrow> cache_expired h s w \<longrightarrow>
             po_planner h parse (s, w) = (Inl err, s1, w1))
        \<and> po_planner h parse2 (s1, w2) =
            (fst (call_planner h parse2 w2), s1, snd (call_planner h parse2 w2))"
  proof (intro impI)
    assume lr: "load_rules h (s, w) = (Inl err, s1, w1)"
    then have "s1 = entered s" by (rule load_rules_raised_entered)
    then have flag: "loading_rules s1" by (simp add: entered_def free_rule_cache_def)
    have first: "po_enabled s \<longrightarrow> \<not> loading_rules s \<longrightarrow> cache_expired h s w \<longrightarrow>
             po_planner h parse (s, w) = (Inl err, s1, w1)"
      using lr by (simp add: po_planner_def refresh_if_expired_def)
    have later: "po_planner h parse2 (s1, w2) =
            (fst (call_planner h parse2 w2), s1, snd (call_planner h parse2 w2))"
      using flag by (simp add: po_planner_def split: prod.splits)
    from flag first later show "loading_rules s1
        \<and> (po_enabled s \<longrightarrow> \<not> loading_rules s \<longrightarrow> cache_expired h s w \<longrightarrow>
             po_planner h parse (s, w) = (Inl err, s1, w1))
        \<and> po_planner h parse2 (s1, w2) =
            (fst (call_planner h parse2 w2), s1, snd (call_planner h parse2 w2))"
      by blast
  qed
  from ret raised show ?thesis by blast
qed

theorem load_rules_error_leaves_flag_set_witness:
  "\<not> loading_rules init_state
   \<and> fst (load_rules (demo_host plan_ok) (init_state, world_spi_down)) = Inr ()
   \<and> \<not> loading_rules (fst (snd (load_rules (demo_host plan_ok) (init_state, world_spi_down))))
   \<and> fst (load_rules (demo_host plan_ok) (init_state, demo_world0 None)) = Inr ()
   \<and> \<not> loading_rules (fst (snd (load_rules (demo_host plan_ok) (init_state, demo_world0 None))))
   \<and> fst (load_rules (demo_host plan_ok) (init_state, world_query_fails)) = Inr ()
   \<and> \<not> loading_rules (fst (snd (load_rules (demo_host plan_ok) (init_state, world_query_fails))))
   \<and> fst (load_rules (demo_host plan_ok) (init_state, demo_world0 (Some []))) = Inr ()
   \<and> \<not> loading_rules (fst (snd (load_rules (demo_host plan_ok) (init_state, demo_world0 (Some [])))))
   \<and> fst (load_rules (demo_host plan_ok) (init_state, demo_world0 (Some [rule_row ''5'' ''6'']))) = Inr ()
   \<and> \<not> loading_rules (fst (snd (load_rules (demo_host plan_ok)
          (init_state, demo_world0 (Some [rule_row ''5'' ''6''])))))
   \<and> fst (load_rules (demo_host plan_ok) (init_state, world_query_raises)) = Inl Query_failed
   \<and> loading_rules (fst (snd (load_rules (demo_host plan_ok) (init_state, world_query_raises))))
   \<and> fst (po_planner (demo_host plan_ok) (request 42 None) (init_state, world_query_raises))
       = Inl Query_failed
   \<and> loading_rules (fst (snd (po_planner (demo_host plan_ok) (request 42 None)
          (init_state, world_query_raises))))
   \<and> cache_expired (demo_host plan_ok)
        (fst (snd (po_planner (demo_host plan_ok) (request 42 None) (init_state, world_query_raises))))
        (demo_world0 (Some [rule_row ''5'' ''6'']))
   \<and> fst (po_planner (demo_host plan_ok) (request 42 None)
        (fst (snd (po_planner (demo_host plan_ok) (request 42 None) (init_state, world_query_raises))),
         demo_world0 (Some [rule_row ''5'' ''6'']))) = Inr 7
   \<and> load_rules_calls (fst (snd (po_planner (demo_host plan_ok) (request 42 None)
        (fst (snd (po_planner (demo_host plan_ok) (request 42 None) (init_state, world_query_raises))),
         demo_world0 (Some [rule_row ''5'' ''6'']))))) = 1
   \<and> loading_rules (fst (snd (po_planner (demo_host plan_ok) (request 42 None)
        (fst (snd (po_planner (demo_host plan_ok) (request 42 None) (init_state, world_query_raises))),
         demo_world0 (Some [rule_row ''5'' ''6''])))))
   \<and> load_rules_calls (fst (snd (po_planner (demo_host plan_ok) (request 42 None)
        (init_state, demo_world0 (Some [rule_row ''5'' ''6'']))))) = 1
   \<and> cached_rules_count (fst (snd (po_planner (demo_host plan_ok) (request 42 None)
        (init_state, demo_world0 (Some [rule_row ''5'' ''6'']))))) = 1"
proof -
  let ?h = "demo_host plan_ok"
  let ?healthy = "demo_world0 (Some [rule_row ''5'' ''6''])"
  let ?lr = "load_rules ?h (init_state, world_query_raises)"
  let ?po = "po_planner ?h (request 42 None) (init_state, world_query_raises)"
  have r: "fst ?lr = Inl Query_failed" by code_simp
  have pre: "po_enabled init_state" "\<not> loading_rules init_state"
    "cache_expired ?h init_state world_query_raises" by code_simp+
  note t = load_rules_error_leaves_flag_set[of ?h init_state world_query_raises _ _ _
      Query_failed "fst (snd ?lr)" "snd (snd ?lr)" "request 42 None" "request 42 None" ?healthy]
  have raised: "?lr = (Inl Query_failed, fst (snd ?lr), snd (snd ?lr))"
    using r by (rule triple_eq)
  have flag: "loading_rules (fst (snd ?lr))" using t raised by blast
  have po: "?po = (Inl Query_failed, fst (snd ?lr), snd (snd ?lr))"
    using t raised pre by blast
  have later: "po_planner ?h (request 42 None) (fst (snd ?lr), ?healthy) =
      (fst (call_planner ?h (request 42 None) ?healthy), fst (snd ?lr),
       snd (call_planner ?h (request 42 None) ?healthy))"
    using t raised by blast
  have cp: "call_planner ?h (request 42 None) ?healthy = (Inr 7, ?healthy)"
    by (simp add: call_planner_def demo_host_def plan_ok_def)
  have s1: "fst (snd ?po) = fst (snd ?lr)" using po by simp
  have a: "fst ?po = Inl Query_failed" using po by simp
  have b: "loading_rules (fst (snd ?po))" using s1 flag by simp
  have c: "fst (po_planner ?h (request 42 None) (fst (snd ?po), ?healthy)) = Inr 7"
    "fst (snd (po_planner ?h (request 42 None) (fst (snd ?po), ?healthy))) = fst (snd ?lr)"
    using later cp s1 by simp_all
  have d: "load_rules_calls (fst (snd ?lr)) = 1" by code_simp
  have e: "cache_expired ?h (fst (snd ?lr)) ?healthy" by code_simp
  have returns: "\<not> loading_rules init_state
   \<and> fst (load_rules (demo_host plan_ok) (init_state, world_spi_down)) = Inr ()
   \<and> \<not> loading_rules (fst (snd (load_rules (demo_host plan_ok) (init_state, world_spi_down))))
   \<and> fst (load_rules (demo_host plan_ok) (init_state, demo_world0 None)) = Inr ()
   \<and> \<not> loading_rules (fst (snd (load_rules (demo_host plan_ok) (init_state, demo_world0 None))))
   \<and> fst (load_rules (demo_host plan_ok) (init_state, world_query_fails)) = Inr ()
   \<and> \<not> loading_rules (fst (snd (load_rules (demo_host plan_ok) (init_state, world_query_fails))))
   \<and> fst (load_rules (demo_host plan_ok) (init_state, demo_world0 (Some []))) = Inr ()
   \<and> \<not> loading_rules (fst (snd (load_rules (demo_host plan_ok) (init_state, demo_world0 (Some [])))))
   \<and> fst (load_rules (demo_host plan_ok) (init_state, demo_world0 (Some [rule_row ''5'' ''6'']))) = Inr ()
   \<and> \<not> loading_rules (fst (snd (load_rules (demo_host plan_ok)
          (init_state, demo_world0 (Some [rule_row ''5'' ''6''])))))"
    by code_simp
  have fresh: "load_rules_calls (fst (snd (po_planner (demo_host plan_ok) (request 42 None)
        (init_state, demo_world0 (Some [rule_row ''5'' ''6'']))))) = 1
   \<and> cached_rules_count (fst (snd (po_planner (demo_host plan_ok) (request 42 None)
        (init_state, demo_world0 (Some [rule_row ''5'' ''6'']))))) = 1"
    by code_simp
  from returns r flag a b c d e fresh s1 show ?thesis by simp
qed

section \<open>When the hook refreshes\<close>

text \<open>
  C6. An enabled, non-re-entrant call of \<open>po_planner\<close> enters \<open>load_rules\<close> once if
  \<open>cache_loaded_at\<close> is 0 (nothing loaded yet) or at least \<open>po_cache_ttl\<close> seconds
  (timestamps are in microseconds) lie between \<open>cache_loaded_at\<close> and the current
  time, and not at all otherwise.
\<close>

theorem po_planner_refresh_iff_expired:
  assumes "po_enabled s" and "\<not> loading_rules s"
  shows "load_rules_calls (fst (snd (po_planner h parse (s, w)))) =
           load_rules_calls s +
             (if cache_loaded_at s = 0 \<or>
                 GetCurrentTimestamp h w - cache_loaded_at s \<ge> po_cache_ttl s * 1000000
              then 1 else 0)"
proof -
  let ?stale = "cache_loaded_at s = 0 \<or>
                 GetCurrentTimestamp h w - cache_loaded_at s \<ge> po_cache_ttl s * 1000000"
  have stale: "cache_expired h s w = ?stale"
    by (simp add: cache_expired_def TimestampDifferenceExceeds_def mult.commute)
  obtain r s1 w1 where ref: "refresh_if_expired h (s, w) = (r, s1, w1)"
    by (cases "refresh_if_expired h (s, w)")
  have s1: "load_rules_calls s1 = load_rules_calls s + (if ?stale then 1 else 0)"
  proof (cases "cache_expired h s w")
    case True
    with ref have "load_rules h (s, w) = (r, s1, w1)" by (simp add: refresh_if_expired_def)
    from load_rules_calls_Suc[OF this] True stale show ?thesis by simp
  next
    case False
    with ref stale show ?thesis by (auto simp: refresh_if_expired_def)
  qed
  have "load_rules_calls (fst (snd (po_planner h parse (s, w)))) = load_rules_calls s1"
    using assms ref
    by (simp add: po_planner_def plan_with_rule_calls split: sum.splits option.splits prod.splits)
  with s1 show ?thesis by simp
qed

theorem po_planner_refresh_iff_expired_witness:
  "load_rules_calls (fst (snd (po_planner (demo_host plan_ok) (request 42 None)
       (init_state, demo_world0 (Some [rule_row ''on'' ''off''])))))
     = 1
   \<and> load_rules_calls (fst (snd (po_planner (demo_host plan_ok) (request 42 None)
       (init_state\<lparr>cache_loaded_at := 990\<rparr>, demo_world0 (Some [rule_row ''on'' ''off''])))))
     = 0
   \<and> load_rules_calls (fst (snd (po_planner (demo_host plan_ok) (request 42 None)
       (init_state\<lparr>cache_loaded_at := 1000 - 60000000\<rparr>, demo_world0 (Some [rule_row ''on'' ''off''])))))
     = 1"
  using po_planner_refresh_iff_expired[of init_state "demo_host plan_ok" "request 42 None"
          "demo_world0 (Some [rule_row ''on'' ''off''])"]
        po_planner_refresh_iff_expired[of "init_state\<lparr>cache_loaded_at := 990\<rparr>" "demo_host plan_ok" "request 42 None"
          "demo_world0 (Some [rule_row ''on'' ''off''])"]
        po_planner_refresh_iff_expired[of "init_state\<lparr>cache_loaded_at := 1000 - 60000000\<rparr>" "demo_host plan_ok" "request 42 None"
          "demo_world0 (Some [rule_row ''on'' ''off''])"]
  by (simp add: init_state_def demo_host_def demo_world0_def)

section \<open>The matcher\<close>

text \<open>
  C4. On a cache whose count is the length of its array, \<open>find_matching_rule\<close> is the
  two-pass resolver of the specification over the cached rules in stored order: with
  a non-zero \<open>queryId\<close>, the first rule whose \<open>query_id\<close> is non-zero and equal to it is
  returned, whatever the query text and the patterns are; if the \<open>queryId\<close> is zero or
  no rule has it, the result is the first rule whose pattern is set and matches the
  query text, when there is a text, and no rule otherwise.
\<close>

theorem find_matching_rule_two_passes:
  assumes "cache_consistent s"
  shows "find_matching_rule s parse =
           resolve_spec (cached_rule_set s) (queryId parse) (query_string parse)
       \<and> (queryId parse \<noteq> 0 \<longrightarrow>
            find (identity_rule (queryId parse)) (cached_rule_set s) = Some r \<longrightarrow>
            find_matching_rule s parse = Some r)
       \<and> (queryId parse = 0 \<or> find (identity_rule (queryId parse)) (cached_rule_set s) = None \<longrightarrow>
            find_matching_rule s parse =
              (case query_string parse of
                 None \<Rightarrow> None
               | Some text \<Rightarrow> find (pattern_rule text) (cached_rule_set s)))"
  using find_matching_rule_resolve[OF assms, of parse]
  by (auto simp: resolve_spec_def split: option.splits)

theorem find_matching_rule_two_passes_witness:
  "cache_consistent loaded_state
   \<and> find_matching_rule loaded_state (request 42 (Some ''select 1'')) = Some (demo_rules ! 1)
   \<and> find_matching_rule loaded_state (request 7 (Some ''select 1'')) = Some (demo_rules ! 0)
   \<and> find_matching_rule loaded_state (request 0 (Some ''update t'')) = Some (demo_rules ! 2)
   \<and> find_matching_rule loaded_state (request 7 None) = None"
proof -
  have c: "cache_consistent loaded_state" by code_simp
  have r1: "resolve_spec (cached_rule_set loaded_state) (queryId (request 42 (Some ''select 1'')))
              (query_string (request 42 (Some ''select 1''))) = Some (demo_rules ! 1)" by code_simp
  have r2: "resolve_spec (cached_rule_set loaded_state) (queryId (request 7 (Some ''select 1'')))
              (query_string (request 7 (Some ''select 1''))) = Some (demo_rules ! 0)" by code_simp
  have r3: "resolve_spec (cached_rule_set loaded_state) (queryId (request 0 (Some ''update t'')))
              (query_string (request 0 (Some ''update t''))) = Some (demo_rules ! 2)" by code_simp
  have r4: "resolve_spec (cached_rule_set loaded_state) (queryId (request 7 None))
              (query_string (request 7 None)) = None" by code_simp
  show ?thesis
    using c find_matching_rule_two_passes[OF c, of "request 42 (Some ''select 1'')" "demo_rules ! 1"]
      find_matching_rule_two_passes[OF c, of "request 7 (Some ''select 1'')" "demo_rules ! 0"]
      find_matching_rule_two_passes[OF c, of "request 0 (Some ''update t'')" "demo_rules ! 2"]
      find_matching_rule_two_passes[OF c, of "request 7 None" "demo_rules ! 0"]
    unfolding r1 r2 r3 r4 by blast
qed

section \<open>load\_rules when the store fails\<close>

text \<open>
  C2, as amended. When \<open>SPI_connect\<close> fails, or the rule query returns a failure code,
  \<open>load_rules\<close> returns with no rules cached and one \<open>WARNING\<close> reported. When the
  lookup of the rules table fails or finds no table, \<open>load_rules\<close> returns with no
  rules cached, reports nothing, and sets \<open>cache_loaded_at\<close> to the current time.
\<close>

theorem load_rules_store_failures:
  "(SPI_connect h w = (rc, w1) \<longrightarrow> rc \<noteq> SPI_OK_CONNECT \<longrightarrow>
      (\<exists>s'. load_rules h (s, w) = (Inr (), s', w1) \<and>
        cached_rules s' = None \<and> cached_rules_count s' = 0 \<and>
        server_log s' = server_log s @ [(WARNING, SPI_connect_failed)]))
   \<and> (SPI_connect h w = (SPI_OK_CONNECT, w1) \<longrightarrow>
      SPI_execute h Select_rules_table_exists True 1 w1 = (Inr (ret, found), w2) \<longrightarrow>
      (ret \<noteq> SPI_OK_SELECT \<or> found = []) \<longrightarrow>
      (\<exists>s'. load_rules h (s, w) = (Inr (), s', SPI_finish h w2) \<and>
        cached_rules s' = None \<and> cached_rules_count s' = 0 \<and>
        server_log s' = server_log s \<and>
        cache_loaded_at s' = GetCurrentTimestamp h (SPI_finish h w2)))
   \<and> (SPI_connect h w = (SPI_OK_CONNECT, w1) \<longrightarrow>
      SPI_execute h Select_rules_table_exists True 1 w1 = (Inr (SPI_OK_SELECT, found), w2) \<longrightarrow>
      found \<noteq> [] \<longrightarrow>
      SPI_execute h Select_enabled_rules True 0 w2 = (Inr (ret', tuples), w3) \<longrightarrow>
      ret' \<noteq> SPI_OK_SELECT \<longrightarrow>
      (\<exists>s'. load_rules h (s, w) = (Inr (), s', SPI_finish h w3) \<and>
        cached_rules s' = None \<and> cached_rules_count s' = 0 \<and>
        server_log s' = server_log s @ [(WARNING, Failed_to_load_rules ret')]))"
proof -
  have a: "SPI_connect h w = (rc, w1) \<longrightarrow> rc \<noteq> SPI_OK_CONNECT \<longrightarrow>
      (\<exists>s'. load_rules h (s, w) = (Inr (), s', w1) \<and>
        cached_rules s' = None \<and> cached_rules_count s' = 0 \<and>
        server_log s' = server_log s @ [(WARNING, SPI_connect_failed)])"
  proof (intro impI)
    assume "SPI_connect h w = (rc, w1)" "rc \<noteq> SPI_OK_CONNECT"
    from load_rules_connect_failed[OF this, of s]
    show "\<exists>s'. load_rules h (s, w) = (Inr (), s', w1) \<and>
        cached_rules s' = None \<and> cached_rules_count s' = 0 \<and>
        server_log s' = server_log s @ [(WARNING, SPI_connect_failed)]"
      by (simp add: elog_def entered_def free_rule_cache_def)
  qed
  have b: "SPI_connect h w = (SPI_OK_CONNECT, w1) \<longrightarrow>
      SPI_execute h Select_rules_table_exists True 1 w1 = (Inr (ret, found), w2) \<longrightarrow>
      (ret \<noteq> SPI_OK_SELECT \<or> found = []) \<longrightarrow>
      (\<exists>s'. load_rules h (s, w) = (Inr (), s', SPI_finish h w2) \<and>
        cached_rules s' = None \<and> cached_rules_count s' = 0 \<and>
        server_log s' = server_log s \<and>
        cache_loaded_at s' = GetCurrentTimestamp h (SPI_finish h w2))"
  proof (intro impI)
    assume "SPI_connect h w = (SPI_OK_CONNECT, w1)"
      "SPI_execute h Select_rules_table_exists True 1 w1 = (Inr (ret, found), w2)"
      "ret \<noteq> SPI_OK_SELECT \<or> found = []"
    then have "load_rules h (s, w) =
           (Inr (), (entered s)\<lparr>cache_loaded_at := GetCurrentTimestamp h (SPI_finish h w2),
                                 loading_rules := False\<rparr>, SPI_finish h w2)"
      by (intro load_rules_no_table) auto
    then show "\<exists>s'. load_rules h (s, w) = (Inr (), s', SPI_finish h w2) \<and>
        cached_rules s' = None \<and> cached_rules_count s' = 0 \<and>
        server_log s' = server_log s \<and>
        cache_loaded_at s' = GetCurrentTimestamp h (SPI_finish h w2)"
      by (simp add: entered_def free_rule_cache_def)
  qed
  have c: "SPI_connect h w = (SPI_OK_CONNECT, w1) \<longrightarrow>
      SPI_execute h Select_rules_table_exists True 1 w1 = (Inr (SPI_OK_SELECT, found), w2) \<longrightarrow>
      found \<noteq> [] \<longrightarrow>
      SPI_execute h Select_enabled_rules True 0 w2 = (Inr (ret', tuples), w3) \<longrightarrow>
      ret' \<noteq> SPI_OK_SELECT \<longrightarrow>
      (\<exists>s'. load_rules h (s, w) = (Inr (), s', SPI_finish h w3) \<and>
        cached_rules s' = None \<and> cached_rules_count s' = 0 \<and>
        server_log s' = server_log s @ [(WARNING, Failed_to_load_rules ret')])"
  proof (intro impI)
    assume "SPI_connect h w = (SPI_OK_CONNECT, w1)"
      "SPI_execute h Select_rules_table_exists True 1 w1 = (Inr (SPI_OK_SELECT, found), w2)"
      "found \<noteq> []"
      "SPI_execute h Select_enabled_rules True 0 w2 = (Inr (ret', tuples), w3)"
      "ret' \<noteq> SPI_OK_SELECT"
    then have "load_rules h (s, w) =
           (Inr (), elog WARNING (Failed_to_load_rules ret') ((entered s)\<lparr>loading_rules := False\<rparr>),
            SPI_finish h w3)"
      by (intro load_rules_query_failed) auto
    then show "\<exists>s'. load_rules h (s, w) = (Inr (), s', SPI_finish h w3) \<and>
        cached_rules s' = None \<and> cached_rules_count s' = 0 \<and>
        server_log s' = server_log s @ [(WARNING, Failed_to_load_rules ret')]"
      by (simp add: elog_def entered_def free_rule_cache_def)
  qed
  from a b c show ?thesis by blast
qed

theorem load_rules_store_failures_witness:
  "(let s' = fst (snd (load_rules (demo_host plan_ok) (stale_state, world_spi_down)))
    in server_log s' = [(WARNING, SPI_connect_failed)] \<and> cached_rules s' = None)
   \<and> (let s' = fst (snd (load_rules (demo_host plan_ok) (stale_state, demo_world0 None)))
    in server_log s' = [] \<and> cache_loaded_at s' = 1000 \<and> cached_rules s' = None)
   \<and> (let s' = fst (snd (load_rules (demo_host plan_ok) (stale_state, world_query_fails)))
    in server_log s' = [(WARNING, Failed_to_load_rules (- 1))] \<and> cached_rules s' = None)"
proof -
  have c1: "SPI_connect (demo_host plan_ok) world_spi_down = (- 1, world_spi_down)"
    "- 1 \<noteq> SPI_OK_CONNECT"
    by (simp_all add: demo_host_def world_spi_down_def demo_world0_def SPI_OK_CONNECT_def)
  have c2: "SPI_connect (demo_host plan_ok) (demo_world0 None) = (SPI_OK_CONNECT, demo_world0 None)"
    "SPI_execute (demo_host plan_ok) Select_rules_table_exists True 1 (demo_world0 None)
       = (Inr (SPI_OK_SELECT, []), demo_world0 None)"
    by (simp_all add: demo_host_def demo_world0_def demo_execute_def)
  have c3: "SPI_connect (demo_host plan_ok) world_query_fails = (SPI_OK_CONNECT, world_query_fails)"
    "SPI_execute (demo_host plan_ok) Select_rules_table_exists True 1 world_query_fails
       = (Inr (SPI_OK_SELECT, [\<lparr>col_query_id = None, col_query_pattern = None,
                                  col_gucs = None, col_priority = None\<rparr>]), world_query_fails)"
    "SPI_execute (demo_host plan_ok) Select_enabled_rules True 0 world_query_fails
       = (Inr (- 1, [rule_row ''on'' ''off'']), world_query_fails)"
    "- 1 \<noteq> SPI_OK_SELECT"
    by (simp_all add: demo_host_def demo_world0_def demo_execute_def world_query_fails_def SPI_OK_SELECT_def)
  have f: "SPI_finish (demo_host plan_ok) = (\<lambda>w. w)" "GetCurrentTimestamp (demo_host plan_ok) = clock"
    by (simp_all add: demo_host_def)
  note t1 = load_rules_store_failures[of "demo_host plan_ok" world_spi_down "- 1" world_spi_down stale_state]
  note t2 = load_rules_store_failures[of "demo_host plan_ok" "demo_world0 None" _ "demo_world0 None" stale_state
      SPI_OK_SELECT "[]" "demo_world0 None"]
  note t3 = load_rules_store_failures[of "demo_host plan_ok" world_query_fails _ world_query_fails stale_state
      _ "[\<lparr>col_query_id = None, col_query_pattern = None, col_gucs = None, col_priority = None\<rparr>]"
      world_query_fails "- 1" "[rule_row ''on'' ''off'']" world_query_fails]
  from t1 c1 have "\<exists>s'. load_rules (demo_host plan_ok) (stale_state, world_spi_down) = (Inr (), s', world_spi_down) \<and>
        cached_rules s' = None \<and> cached_rules_count s' = 0 \<and>
        server_log s' = server_log stale_state @ [(WARNING, SPI_connect_failed)]" by blast
  then have r1: "let s' = fst (snd (load_rules (demo_host plan_ok) (stale_state, world_spi_down)))
    in server_log s' = [(WARNING, SPI_connect_failed)] \<and> cached_rules s' = None"
    by (auto simp: stale_state_def init_state_def)
  from t2 c2 have "\<exists>s'. load_rules (demo_host plan_ok) (stale_state, demo_world0 None)
          = (Inr (), s', SPI_finish (demo_host plan_ok) (demo_world0 None)) \<and>
        cached_rules s' = None \<and> cached_rules_count s' = 0 \<and>
        server_log s' = server_log stale_state \<and>
        cache_loaded_at s' = GetCurrentTimestamp (demo_host plan_ok) (SPI_finish (demo_host plan_ok) (demo_world0 None))"
    by blast
  then have r2: "let s' = fst (snd (load_rules (demo_host plan_ok) (stale_state, demo_world0 None)))
    in server_log s' = [] \<and> cache_loaded_at s' = 1000 \<and> cached_rules s' = None"
    by (auto simp: stale_state_def init_state_def f demo_world0_def)
  from t3 c3 have "\<exists>s'. load_rules (demo_host plan_ok) (stale_state, world_query_fails)
          = (Inr (), s', SPI_finish (demo_host plan_ok) world_query_fails) \<and>
        cached_rules s' = None \<and> cached_rules_count s' = 0 \<and>
        server_log s' = server_log stale_state @ [(WARNING, Failed_to_load_rules (- 1))]"
    by blast
  then have r3: "let s' = fst (snd (load_rules (demo_host plan_ok) (stale_state, world_query_fails)))
    in server_log s' = [(WARNING, Failed_to_load_rules (- 1))] \<and> cached_rules s' = None"
    by (auto simp: stale_state_def init_state_def)
  from r1 r2 r3 show ?thesis by blast
qed

text \<open>
  C2 as stated fails. With SPI unable to connect, \<open>load_rules\<close> returns with
  \<open>cache_loaded_at\<close> still 0, not the current time, and the next call of the hook enters
  \<open>load_rules\<close> again (two entries after two calls). With no rules table, \<open>load_rules\<close>
  returns without any report.
\<close>

theorem load_rules_store_failure_counterexample:
  "fst (SPI_connect (demo_host plan_ok) world_spi_down) \<noteq> SPI_OK_CONNECT
   \<and> fst (load_rules (demo_host plan_ok) (init_state, world_spi_down)) = Inr ()
   \<and> cache_loaded_at (fst (snd (load_rules (demo_host plan_ok) (init_state, world_spi_down))))
       \<noteq> GetCurrentTimestamp (demo_host plan_ok)
            (snd (snd (load_rules (demo_host plan_ok) (init_state, world_spi_down))))
   \<and> load_rules_calls (fst (snd (po_planner (demo_host plan_ok) (request 42 None)
        (case po_planner (demo_host plan_ok) (request 42 None) (init_state, world_spi_down) of
           (res, s, w) \<Rightarrow> (s, w))))) = 2
   \<and> rules_table (demo_world0 None) = None
   \<and> fst (load_rules (demo_host plan_ok) (init_state, demo_world0 None)) = Inr ()
   \<and> server_log (fst (snd (load_rules (demo_host plan_ok) (init_state, demo_world0 None)))) = []"
  by code_simp

section \<open>Lemmas about the save, set and restore loops\<close>

lemma in_rule_names: "m \<in> set (rule_names rule) \<longleftrightarrow> (\<exists>j<num_gucs rule. guc_names rule ! j = m)"
  by (auto simp: rule_names_def)

lemma guc_contract_frame:
  "guc_contract h \<Longrightarrow> set_config_option h w n v = Inr w' \<Longrightarrow> m \<noteq> n \<Longrightarrow>
     GetConfigOption h w' m = GetConfigOption h w m"
  unfolding guc_contract_def by metis

lemma guc_contract_readback:
  "guc_contract h \<Longrightarrow> GetConfigOption h w0 n = Inr v \<Longrightarrow> set_config_option h w n v = Inr w' \<Longrightarrow>
     GetConfigOption h w' n = Inr v"
  unfolding guc_contract_def by metis

lemma set_gucs_frame:
  "guc_contract h \<Longrightarrow> set_gucs h rule va i w = (r, w') \<Longrightarrow>
     (\<forall>j. i \<le> j \<and> j < num_gucs rule \<longrightarrow> guc_names rule ! j \<noteq> m) \<Longrightarrow>
     GetConfigOption h w' m = GetConfigOption h w m"
proof (induction h rule va i w rule: set_gucs.induct)
  case (1 h rule va i w)
  show ?case
  proof (cases "i < num_gucs rule")
    case False
    with 1(3) show ?thesis by (subst (asm) set_gucs.simps) simp
  next
    case True
    show ?thesis
    proof (cases "set_config_option h w (guc_names rule ! i) (va i)")
      case (Inl err)
      with True 1(3) show ?thesis by (subst (asm) set_gucs.simps) simp
    next
      case (Inr w1)
      with True 1(3) have rest: "set_gucs h rule va (Suc i) w1 = (r, w')"
        by (subst (asm) set_gucs.simps) simp
      have "m \<noteq> guc_names rule ! i" using 1(4) True by auto
      then have "GetConfigOption h w1 m = GetConfigOption h w m"
        by (rule guc_contract_frame[OF 1(2) Inr])
      moreover have "GetConfigOption h w' m = GetConfigOption h w1 m"
        using 1(1)[OF True Inr 1(2) rest] 1(4) by auto
      ultimately show ?thesis by simp
    qed
  qed
qed

lemma set_gucs_restores:
  "guc_contract h \<Longrightarrow> set_gucs h rule (\<lambda>k. saved ! k) i w = (Inr u, w') \<Longrightarrow>
     (\<forall>j. i \<le> j \<and> j < num_gucs rule \<longrightarrow>
          GetConfigOption h w0 (guc_names rule ! j) = Inr (saved ! j)) \<Longrightarrow>
     (\<forall>j. i \<le> j \<and> j < num_gucs rule \<longrightarrow>
          GetConfigOption h w' (guc_names rule ! j) = Inr (saved ! j))"
proof (induction h rule "\<lambda>k. saved ! k" i w rule: set_gucs.induct)
  case (1 h rule i w)
  show ?case
  proof (cases "i < num_gucs rule")
    case False
    then show ?thesis by auto
  next
    case True
    show ?thesis
    proof (cases "set_config_option h w (guc_names rule ! i) (saved ! i)")
      case (Inl err)
      with True 1(3) show ?thesis by (subst (asm) set_gucs.simps) simp
    next
      case (Inr w1)
      with True 1(3) have rest: "set_gucs h rule (\<lambda>k. saved ! k) (Suc i) w1 = (Inr u, w')"
        by (subst (asm) set_gucs.simps) simp
      have later: "\<forall>j. Suc i \<le> j \<and> j < num_gucs rule \<longrightarrow>
                     GetConfigOption h w' (guc_names rule ! j) = Inr (saved ! j)"
        using 1(1)[OF True Inr 1(2) rest] 1(4) by auto
      have read0: "GetConfigOption h w0 (guc_names rule ! i) = Inr (saved ! i)"
        using 1(4) True by auto
      have here: "GetConfigOption h w' (guc_names rule ! i) = Inr (saved ! i)"
      proof (cases "\<exists>j. Suc i \<le> j \<and> j < num_gucs rule \<and> guc_names rule ! j = guc_names rule ! i")
        case True
        then obtain j where j: "Suc i \<le> j" "j < num_gucs rule"
          and same: "guc_names rule ! j = guc_names rule ! i"
          by blast
        from later j have "GetConfigOption h w' (guc_names rule ! j) = Inr (saved ! j)" by simp
        moreover from 1(4) j have "GetConfigOption h w0 (guc_names rule ! j) = Inr (saved ! j)" by simp
        ultimately show ?thesis using read0 same by simp
      next
        case False
        then have "\<forall>j. Suc i \<le> j \<and> j < num_gucs rule \<longrightarrow> guc_names rule ! j \<noteq> guc_names rule ! i"
          by blast
        from set_gucs_frame[OF 1(2) rest this]
        have "GetConfigOption h w' (guc_names rule ! i) = GetConfigOption h w1 (guc_names rule ! i)" .
        moreover have "GetConfigOption h w1 (guc_names rule ! i) = Inr (saved ! i)"
          by (rule guc_contract_readback[OF 1(2) read0 Inr])
        ultimately show ?thesis by simp
      qed
      show ?thesis
      proof (intro allI impI)
        fix j assume "i \<le> j \<and> j < num_gucs rule"
        then show "GetConfigOption h w' (guc_names rule ! j) = Inr (saved ! j)"
          using here later by (cases "j = i") auto
      qed
    qed
  qed
qed

lemma save_gucs_reads:
  "save_gucs h w rule i saved = Inr saved' \<Longrightarrow> length saved = i \<Longrightarrow>
     (\<forall>j<i. saved' ! j = saved ! j) \<and>
     (\<forall>j. i \<le> j \<and> j < num_gucs rule \<longrightarrow> GetConfigOption h w (guc_names rule ! j) = Inr (saved' ! j))"
proof (induction h w rule i saved rule: save_gucs.induct)
  case (1 h w rule i saved)
  show ?case
  proof (cases "i < num_gucs rule")
    case False
    with 1(2) show ?thesis by (subst (asm) save_gucs.simps) auto
  next
    case True
    show ?thesis
    proof (cases "GetConfigOption h w (guc_names rule ! i)")
      case (Inl err)
      with True 1(2) show ?thesis by (subst (asm) save_gucs.simps) simp
    next
      case (Inr val)
      have st: "array_store saved i val = saved @ [val]" using 1(3) by (simp add: array_store_def)
      with True Inr 1(2) have rest: "save_gucs h w rule (Suc i) (saved @ [val]) = Inr saved'"
        by (subst (asm) save_gucs.simps) simp
      have ih: "(\<forall>j<Suc i. saved' ! j = (saved @ [val]) ! j) \<and>
         (\<forall>j. Suc i \<le> j \<and> j < num_gucs rule \<longrightarrow> GetConfigOption h w (guc_names rule ! j) = Inr (saved' ! j))"
        using 1(1)[OF True Inr] rest st 1(3) by simp
      then have "saved' ! i = val" using 1(3) by (metis lessI nth_append_length)
      moreover have "\<forall>j<i. saved' ! j = saved ! j"
        using ih 1(3) by (metis less_Suc_eq nth_append)
      ultimately show ?thesis using ih Inr
        by (metis Suc_leI le_neq_implies_less)
    qed
  qed
qed

lemma demo_guc_contract: "guc_contract (demo_host plan)"
  by (auto simp: guc_contract_def demo_host_def demo_get_def demo_set_def
           split: if_splits option.splits)

lemma po_planner_matched:
  assumes "po_enabled s" "\<not> loading_rules s"
    and "refresh_if_expired h (s, w) = (Inr u, s1, w1)"
    and "find_matching_rule s1 parse = Some rule"
  shows "po_planner h parse (s, w) = plan_with_rule h rule parse (s1, w1)"
  using assms by (simp add: po_planner_def)

lemma plan_with_rule_success:
  assumes "plan_with_rule h rule parse (s, w) = (Inr result, s', w')"
  obtains saved wa wp where
    "save_gucs h w rule 0 [] = Inr saved"
    "apply_overrides h rule w = (Inr (), wa)"
    "call_planner h parse wa = (Inr result, wp)"
    "restore_gucs h rule saved wp = (Inr (), w')"
  using assms
  by (auto simp: plan_with_rule_def pg_try_def pg_catch_def Let_def
           split: sum.splits prod.splits)

lemma plan_with_rule_run:
  assumes "save_gucs h w rule 0 [] = Inr saved"
    and "apply_overrides h rule w = (Inr u, wa)"
  shows "fst (plan_with_rule h rule parse (s, w)) = fst (pg_try h rule saved parse wa)"
    and "snd (snd (plan_with_rule h rule parse (s, w))) = snd (pg_try h rule saved parse wa)"
  using assms by (simp_all add: plan_with_rule_def Let_def split: prod.splits)

lemma saved_reads:
  assumes "save_gucs h w rule 0 [] = Inr saved"
  shows "\<forall>j. 0 \<le> j \<and> j < num_gucs rule \<longrightarrow> GetConfigOption h w (guc_names rule ! j) = Inr (saved ! j)"
  using save_gucs_reads[OF assms] by simp

lemma restore_gucs_restores:
  assumes "guc_contract h"
    and "save_gucs h w rule 0 [] = Inr saved"
    and "restore_gucs h rule saved wp = (Inr u, w')"
    and "n \<in> set (rule_names rule)"
  shows "GetConfigOption h w' n = GetConfigOption h w n"
proof -
  from assms(4) obtain j where j: "j < num_gucs rule" "guc_names rule ! j = n"
    by (auto simp: in_rule_names)
  have "\<forall>j. 0 \<le> j \<and> j < num_gucs rule \<longrightarrow> GetConfigOption h w' (guc_names rule ! j) = Inr (saved ! j)"
    using set_gucs_restores[OF assms(1) assms(3)[unfolded restore_gucs_def] saved_reads[OF assms(2)]] .
  with j saved_reads[OF assms(2)] show ?thesis by auto
qed

lemma set_gucs_frame_names:
  assumes "guc_contract h" and "set_gucs h rule va 0 w = (r, w')" and "m \<notin> set (rule_names rule)"
  shows "GetConfigOption h w' m = GetConfigOption h w m"
proof -
  from assms(3) have "\<forall>j. 0 \<le> j \<and> j < num_gucs rule \<longrightarrow> guc_names rule ! j \<noteq> m"
    by (auto simp: in_rule_names)
  from set_gucs_frame[OF assms(1,2) this] show ?thesis .
qed

lemma pair_eq: "fst x = a \<Longrightarrow> x = (a, snd x)"
  by (cases x) auto

lemma cached_state_fresh:
  "refresh_if_expired (demo_host plan) (cached_state rule, demo_world0 table)
     = (Inr (), cached_state rule, demo_world0 table)"
  by (simp add: refresh_if_expired_def cache_expired_def TimestampDifferenceExceeds_def
        cached_state_def init_state_def demo_host_def demo_world0_def)

lemma cached_state_flags: "po_enabled (cached_state rule)" "\<not> loading_rules (cached_state rule)"
  by (simp_all add: cached_state_def init_state_def)

section \<open>The override session\<close>

text \<open>
  C8. Let the backend keep the contract of the GUC machinery, and let an enabled,
  non-re-entrant call of \<open>po_planner\<close> find a rule and return a plan (every
  assignment and the planner succeeded). Then every setting the rule names, also one
  named twice, reads after the call as it read before the overrides were set; and
  the two assignment loops change no other setting: a setting the rule does not name
  reads after the overrides as before them, and after the restore as the planner
  left it.
\<close>

theorem overrides_restored_on_success:
  assumes "guc_contract h" and "po_enabled s" and "\<not> loading_rules s"
    and "refresh_if_expired h (s, w) = (Inr u, s1, w1)"
    and "find_matching_rule s1 parse = Some rule"
    and "po_planner h parse (s, w) = (Inr result, s', w')"
  shows "(\<forall>n \<in> set (rule_names rule). GetConfigOption h w' n = GetConfigOption h w1 n)
       \<and> (\<forall>m. m \<notin> set (rule_names rule) \<longrightarrow>
            GetConfigOption h (snd (apply_overrides h rule w1)) m = GetConfigOption h w1 m
          \<and> GetConfigOption h w' m =
              GetConfigOption h (snd (call_planner h parse (snd (apply_overrides h rule w1)))) m)"
proof -
  have run: "plan_with_rule h rule parse (s1, w1) = (Inr result, s', w')"
    using po_planner_matched[OF assms(2-5)] assms(6) by simp
  then obtain saved wa wp where
    sv: "save_gucs h w1 rule 0 [] = Inr saved"
    and ap: "apply_overrides h rule w1 = (Inr (), wa)"
    and pl: "call_planner h parse wa = (Inr result, wp)"
    and rs: "restore_gucs h rule saved wp = (Inr (), w')"
    by (rule plan_with_rule_success)
  have named: "\<forall>n \<in> set (rule_names rule). GetConfigOption h w' n = GetConfigOption h w1 n"
    using restore_gucs_restores[OF assms(1) sv rs] by blast
  have others: "\<forall>m. m \<notin> set (rule_names rule) \<longrightarrow>
            GetConfigOption h wa m = GetConfigOption h w1 m
          \<and> GetConfigOption h w' m = GetConfigOption h wp m"
    using set_gucs_frame_names[OF assms(1) ap[unfolded apply_overrides_def]]
      set_gucs_frame_names[OF assms(1) rs[unfolded restore_gucs_def]] by blast
  from named others ap pl show ?thesis by simp
qed

theorem overrides_restored_on_success_witness:
  "fst (po_planner (demo_host plan_ok) (request 42 None) (cached_state dup_rule, demo_world0 None)) = Inr 7
   \<and> GetConfigOption (demo_host plan_ok) (snd (apply_overrides (demo_host plan_ok) dup_rule (demo_world0 None))) ''a''
       = Inr (Some ''7'')
   \<and> GetConfigOption (demo_host plan_ok)
        (snd (snd (po_planner (demo_host plan_ok) (request 42 None) (cached_state dup_rule, demo_world0 None)))) ''a''
       = Inr (Some ''1'')
   \<and> GetConfigOption (demo_host plan_ok)
        (snd (snd (po_planner (demo_host plan_ok) (request 42 None) (cached_state dup_rule, demo_world0 None)))) ''b''
       = Inr (Some ''2'')
   \<and> GetConfigOption (demo_host plan_ok)
        (snd (snd (po_planner (demo_host plan_ok) (request 42 None) (cached_state dup_rule, demo_world0 None)))) ''c''
       = Inr (Some ''3'')"
proof -
  let ?h = "demo_host plan_ok"
  let ?run = "po_planner ?h (request 42 None) (cached_state dup_rule, demo_world0 None)"
  have ok: "fst ?run = Inr 7" by code_simp
  have fm: "find_matching_rule (cached_state dup_rule) (request 42 None) = Some dup_rule" by code_simp
  have ap: "GetConfigOption ?h (snd (apply_overrides ?h dup_rule (demo_world0 None))) ''a'' = Inr (Some ''7'')"
    by code_simp
  have names: "''a'' \<in> set (rule_names dup_rule)" "''b'' \<in> set (rule_names dup_rule)"
    "''c'' \<notin> set (rule_names dup_rule)" by code_simp+
  have before: "GetConfigOption ?h (demo_world0 None) ''a'' = Inr (Some ''1'')"
    "GetConfigOption ?h (demo_world0 None) ''b'' = Inr (Some ''2'')"
    "GetConfigOption ?h (snd (call_planner ?h (request 42 None)
        (snd (apply_overrides ?h dup_rule (demo_world0 None))))) ''c'' = Inr (Some ''3'')"
    by code_simp+
  from overrides_restored_on_success[OF demo_guc_contract cached_state_flags cached_state_fresh fm
      triple_eq[OF ok]] names before ok ap
  show ?thesis by metis
qed

text \<open>
  C1, as amended. Let the backend keep the contract of the GUC machinery, and let an
  enabled, non-re-entrant call of \<open>po_planner\<close> find a rule, save and set its
  settings, and the wrapped planner raise an error. If every assignment of the
  restore loop of the \<open>PG_CATCH\<close> block succeeds, the call raises that same error, in
  the world the restore loop left, where every setting the rule names reads as it
  read before the overrides were set.
\<close>

theorem planner_failure_restored_and_rethrown:
  assumes "guc_contract h" and "po_enabled s" and "\<not> loading_rules s"
    and "refresh_if_expired h (s, w) = (Inr u, s1, w1)"
    and "find_matching_rule s1 parse = Some rule"
    and "save_gucs h w1 rule 0 [] = Inr saved"
    and "apply_overrides h rule w1 = (Inr u1, wa)"
    and "call_planner h parse wa = (Inl err, wp)"
    and "restore_gucs h rule saved wp = (Inr u2, w')"
  shows "fst (po_planner h parse (s, w)) = Inl err
       \<and> snd (snd (po_planner h parse (s, w))) = w'
       \<and> (\<forall>n \<in> set (rule_names rule). GetConfigOption h w' n = GetConfigOption h w1 n)"
proof -
  have "pg_try h rule saved parse wa = (Inl err, w')"
    using assms(8,9) by (simp add: pg_try_def pg_catch_def)
  then have "fst (po_planner h parse (s, w)) = Inl err"
    and "snd (snd (po_planner h parse (s, w))) = w'"
    using po_planner_matched[OF assms(2-5)] plan_with_rule_run[OF assms(6,7), of parse s1] by simp_all
  moreover have "\<forall>n \<in> set (rule_names rule). GetConfigOption h w' n = GetConfigOption h w1 n"
    using restore_gucs_restores[OF assms(1) assms(6) assms(9)] by blast
  ultimately show ?thesis by simp
qed

theorem planner_failure_restored_and_rethrown_witness:
  "fst (po_planner (demo_host plan_fails) (request 42 None) (cached_state dup_rule, demo_world0 None))
     = Inl Planner_failed
   \<and> GetConfigOption (demo_host plan_fails) (snd (apply_overrides (demo_host plan_fails) dup_rule (demo_world0 None))) ''a''
       = Inr (Some ''7'')
   \<and> GetConfigOption (demo_host plan_fails)
        (snd (snd (po_planner (demo_host plan_fails) (request 42 None) (cached_state dup_rule, demo_world0 None)))) ''a''
       = Inr (Some ''1'')
   \<and> GetConfigOption (demo_host plan_fails)
        (snd (snd (po_planner (demo_host plan_fails) (request 42 None) (cached_state dup_rule, demo_world0 None)))) ''b''
       = Inr (Some ''2'')"
proof -
  let ?h = "demo_host plan_fails"
  let ?wa = "snd (apply_overrides ?h dup_rule (demo_world0 None))"
  let ?saved = "[Some ''1'', Some ''2'', Some ''1'']"
  have fm: "find_matching_rule (cached_state dup_rule) (request 42 None) = Some dup_rule" by code_simp
  have sv: "save_gucs ?h (demo_world0 None) dup_rule 0 [] = Inr ?saved" by code_simp
  have ap: "fst (apply_overrides ?h dup_rule (demo_world0 None)) = Inr ()" by code_simp
  have pl: "call_planner ?h (request 42 None) ?wa = (Inl Planner_failed, ?wa)"
    by (simp add: call_planner_def demo_host_def plan_fails_def)
  have rs: "fst (restore_gucs ?h dup_rule ?saved ?wa) = Inr ()" by code_simp
  have names: "''a'' \<in> set (rule_names dup_rule)" "''b'' \<in> set (rule_names dup_rule)" by code_simp+
  have before: "GetConfigOption ?h (demo_world0 None) ''a'' = Inr (Some ''1'')"
    "GetConfigOption ?h (demo_world0 None) ''b'' = Inr (Some ''2'')"
    "GetConfigOption ?h ?wa ''a'' = Inr (Some ''7'')"
    by code_simp+
  from planner_failure_restored_and_rethrown[OF demo_guc_contract cached_state_flags cached_state_fresh fm
      sv pair_eq[OF ap] pl pair_eq[OF rs]] names before
  show ?thesis by metis
qed

text \<open>
  C1 as stated fails: not every failure of the wrapped planner is re-raised after a
  restore. The rule names \<open>a\<close>, \<open>b\<close> and \<open>a\<close> again; its settings are saved and set,
  and the planner raises in a world where the backend no longer accepts a change of
  \<open>a\<close>. The first assignment of the restore loop in \<open>PG_CATCH\<close> then raises in front of
  \<open>PG_RE_THROW\<close>: the call raises the error of that assignment in place of the
  planner's, and \<open>a\<close> reads the override 7, not the saved 1.
\<close>

theorem planner_failure_replaced_counterexample:
  "find_matching_rule (cached_state dup_rule) (request 42 None) = Some dup_rule
   \<and> save_gucs (demo_host plan_locks_and_fails) (demo_world0 None) dup_rule 0 []
       = Inr [Some ''1'', Some ''2'', Some ''1'']
   \<and> fst (apply_overrides (demo_host plan_locks_and_fails) dup_rule (demo_world0 None)) = Inr ()
   \<and> fst (call_planner (demo_host plan_locks_and_fails) (request 42 None)
        (snd (apply_overrides (demo_host plan_locks_and_fails) dup_rule (demo_world0 None))))
       = Inl Planner_failed
   \<and> fst (po_planner (demo_host plan_locks_and_fails) (request 42 None)
        (cached_state dup_rule, demo_world0 None))
       = Inl (Cannot_change ''a'')
   \<and> GetConfigOption (demo_host plan_locks_and_fails) (demo_world0 None) ''a'' = Inr (Some ''1'')
   \<and> GetConfigOption (demo_host plan_locks_and_fails)
        (snd (snd (po_planner (demo_host plan_locks_and_fails) (request 42 None)
           (cached_state dup_rule, demo_world0 None)))) ''a''
       = Inr (Some ''7'')"
  by code_simp

text \<open>
  C3, as amended. For a rule found by an enabled, non-re-entrant call whose settings
  were saved: if an assignment of the set loop fails, the call raises that error; if
  an assignment of the restore loop fails, after the wrapped planner returned or
  raised, the call raises an error; and if the wrapped planner raised and the restore
  loop completes, the call raises the planner's error.
\<close>

theorem assignment_failure_fails_run:
  assumes "po_enabled s" and "\<not> loading_rules s"
    and "refresh_if_expired h (s, w) = (Inr u, s1, w1)"
    and "find_matching_rule s1 parse = Some rule"
    and "save_gucs h w1 rule 0 [] = Inr saved"
  shows "(apply_overrides h rule w1 = (Inl err, wa) \<longrightarrow>
            fst (po_planner h parse (s, w)) = Inl err)
       \<and> (apply_overrides h rule w1 = (Inr u1, wa) \<longrightarrow>
            restore_gucs h rule saved (snd (call_planner h parse wa)) = (Inl err, wr) \<longrightarrow>
            isl (fst (po_planner h parse (s, w))))
       \<and> (apply_overrides h rule w1 = (Inr u1, wa) \<longrightarrow>
            call_planner h parse wa = (Inl perr, wp) \<longrightarrow>
            restore_gucs h rule saved wp = (Inr u2, w') \<longrightarrow>
            fst (po_planner h parse (s, w)) = Inl perr)"
proof -
  note matched = po_planner_matched[OF assms(1-4)]
  have c1: "apply_overrides h rule w1 = (Inl err, wa) \<longrightarrow>
            fst (po_planner h parse (s, w)) = Inl err"
    using matched assms(5) by (simp add: plan_with_rule_def)
  have c2: "apply_overrides h rule w1 = (Inr u1, wa) \<longrightarrow>
            restore_gucs h rule saved (snd (call_planner h parse wa)) = (Inl err, wr) \<longrightarrow>
            isl (fst (po_planner h parse (s, w)))"
  proof (intro impI)
    assume ap: "apply_overrides h rule w1 = (Inr u1, wa)"
      and rs: "restore_gucs h rule saved (snd (call_planner h parse wa)) = (Inl err, wr)"
    obtain res wp where pl: "call_planner h parse wa = (res, wp)"
      by (cases "call_planner h parse wa")
    with rs have "restore_gucs h rule saved wp = (Inl err, wr)" by simp
    with pl have "isl (fst (pg_try h rule saved parse wa))"
      by (cases res) (simp_all add: pg_try_def pg_catch_def split: sum.splits prod.splits)
    then show "isl (fst (po_planner h parse (s, w)))"
      using matched plan_with_rule_run[OF assms(5) ap, of parse s1] by simp
  qed
  have c3: "apply_overrides h rule w1 = (Inr u1, wa) \<longrightarrow>
            call_planner h parse wa = (Inl perr, wp) \<longrightarrow>
            restore_gucs h rule saved wp = (Inr u2, w') \<longrightarrow>
            fst (po_planner h parse (s, w)) = Inl perr"
  proof (intro impI)
    assume ap: "apply_overrides h rule w1 = (Inr u1, wa)"
      and "call_planner h parse wa = (Inl perr, wp)"
      and "restore_gucs h rule saved wp = (Inr u2, w')"
    then have "pg_try h rule saved parse wa = (Inl perr, w')"
      by (simp add: pg_try_def pg_catch_def)
    then show "fst (po_planner h parse (s, w)) = Inl perr"
      using matched plan_with_rule_run[OF assms(5) ap, of parse s1] by simp
  qed
  from c1 c2 c3 show ?thesis by blast
qed

theorem assignment_failure_fails_run_witness:
  "fst (po_planner (demo_host plan_ok) (request 42 None) (cached_state bad_rule, demo_world0 None))
     = Inl (Invalid_value ''b'')
   \<and> isl (fst (po_planner (demo_host plan_locks_and_fails) (request 42 None)
        (cached_state dup_rule, demo_world0 None)))
   \<and> isl (fst (po_planner (demo_host plan_locks_and_returns) (request 42 None)
        (cached_state dup_rule, demo_world0 None)))
   \<and> fst (po_planner (demo_host plan_fails) (request 42 None) (cached_state dup_rule, demo_world0 None))
     = Inl Planner_failed"
proof -
  let ?w = "demo_world0 None"
  let ?saved = "[Some ''1'', Some ''2'', Some ''1'']"
  have fm: "find_matching_rule (cached_state dup_rule) (request 42 None) = Some dup_rule"
    "find_matching_rule (cached_state bad_rule) (request 42 None) = Some bad_rule" by code_simp+
  have sv: "\<And>plan. save_gucs (demo_host plan) ?w dup_rule 0 [] = Inr ?saved"
    "save_gucs (demo_host plan_ok) ?w bad_rule 0 [] = Inr [Some ''1'', Some ''2'']"
    by code_simp+
  have ap1: "fst (apply_overrides (demo_host plan_ok) bad_rule ?w) = Inl (Invalid_value ''b'')"
    by code_simp
  have ap2: "fst (apply_overrides (demo_host plan_locks_and_fails) dup_rule ?w) = Inr ()"
    "fst (apply_overrides (demo_host plan_locks_and_returns) dup_rule ?w) = Inr ()"
    "fst (apply_overrides (demo_host plan_fails) dup_rule ?w) = Inr ()" by code_simp+
  have pl: "fst (call_planner (demo_host plan_fails) (request 42 None)
                (snd (apply_overrides (demo_host plan_fails) dup_rule ?w))) = Inl Planner_failed"
    by code_simp
  have rs2: "fst (restore_gucs (demo_host plan_locks_and_fails) dup_rule ?saved
                (snd (call_planner (demo_host plan_locks_and_fails) (request 42 None)
                (snd (apply_overrides (demo_host plan_locks_and_fails) dup_rule ?w))))) = Inl (Cannot_change ''a'')"
    "fst (restore_gucs (demo_host plan_locks_and_returns) dup_rule ?saved
                (snd (call_planner (demo_host plan_locks_and_returns) (request 42 None)
                (snd (apply_overrides (demo_host plan_locks_and_returns) dup_rule ?w))))) = Inl (Cannot_change ''a'')"
    by code_simp+
  have rs3: "fst (restore_gucs (demo_host plan_fails) dup_rule ?saved
                (snd (call_planner (demo_host plan_fails) (request 42 None)
                (snd (apply_overrides (demo_host plan_fails) dup_rule ?w))))) = Inr ()"
    by code_simp
  note t1 = assignment_failure_fails_run[OF cached_state_flags cached_state_fresh fm(2) sv(2)]
  note t2 = assignment_failure_fails_run[OF cached_state_flags cached_state_fresh fm(1) sv(1), of plan_locks_and_fails]
  note t3 = assignment_failure_fails_run[OF cached_state_flags cached_state_fresh fm(1) sv(1), of plan_locks_and_returns]
  note t4 = assignment_failure_fails_run[OF cached_state_flags cached_state_fresh fm(1) sv(1), of plan_fails]
  have a: "fst (po_planner (demo_host plan_ok) (request 42 None) (cached_state bad_rule, ?w))
     = Inl (Invalid_value ''b'')"
    using t1 pair_eq[OF ap1] by metis
  have b: "isl (fst (po_planner (demo_host plan_locks_and_fails) (request 42 None)
        (cached_state dup_rule, ?w)))"
    using t2 pair_eq[OF ap2(1)] pair_eq[OF rs2(1)] by metis
  have c: "isl (fst (po_planner (demo_host plan_locks_and_returns) (request 42 None)
        (cached_state dup_rule, ?w)))"
    using t3 pair_eq[OF ap2(2)] pair_eq[OF rs2(2)] by metis
  have d: "fst (po_planner (demo_host plan_fails) (request 42 None) (cached_state dup_rule, ?w))
     = Inl Planner_failed"
    using t4 pair_eq[OF ap2(3)] pair_eq[OF pl] pair_eq[OF rs3] by metis
  from a b c d show ?thesis by simp
qed

text \<open>
  C3 as stated fails. A rule sets \<open>a\<close> and then gives \<open>b\<close> a value the backend
  refuses: the call raises, and \<open>a\<close> keeps the override 5 in place of its old value 1,
  so no restore was attempted. And when the planner raises and the backend then
  refuses to change \<open>a\<close>, the call raises the restore error, not the planner's, and
  the entry after the failing one is not restored (\<open>b\<close> keeps the override 6).
\<close>

theorem assignment_failure_counterexample:
  "fst (po_planner (demo_host plan_ok) (request 42 None) (cached_state bad_rule, demo_world0 None))
     = Inl (Invalid_value ''b'')
   \<and> GetConfigOption (demo_host plan_ok) (demo_world0 None) ''a'' = Inr (Some ''1'')
   \<and> GetConfigOption (demo_host plan_ok)
        (snd (snd (po_planner (demo_host plan_ok) (request 42 None) (cached_state bad_rule, demo_world0 None)))) ''a''
       = Inr (Some ''5'')
   \<and> fst (call_planner (demo_host plan_locks_and_fails) (request 42 None)
        (snd (apply_overrides (demo_host plan_locks_and_fails) dup_rule (demo_world0 None))))
       = Inl Planner_failed
   \<and> fst (po_planner (demo_host plan_locks_and_fails) (request 42 None) (cached_state dup_rule, demo_world0 None))
       = Inl (Cannot_change ''a'')
   \<and> GetConfigOption (demo_host plan_locks_and_fails)
        (snd (snd (po_planner (demo_host plan_locks_and_fails) (request 42 None)
           (cached_state dup_rule, demo_world0 None)))) ''b''
       = Inr (Some ''6'')"
  by code_simp

section \<open>Lemmas about pattern\_match\<close>

lemma like_nil_pat: "like_spec ts [] = (ts = [])"
  by (cases ts) auto

lemma like_nil_text: "like_spec [] ps = (set ps \<subseteq> {CHR ''%''})"
  by (induction ps) auto

lemma like_char:
  "q \<noteq> CHR ''%'' \<Longrightarrow>
     like_spec ts (q # ps) = (ts \<noteq> [] \<and> (q = CHR ''_'' \<or> q = hd ts) \<and> like_spec (tl ts) ps)"
  by (cases ts) auto

lemma like_percent:
  "like_spec ts (CHR ''%'' # ps) = (\<exists>k\<le>length ts. like_spec (drop k ts) ps)"
proof (induction ts)
  case Nil
  show ?case by simp
next
  case (Cons c cs)
  have "(\<exists>k\<le>length (c # cs). like_spec (drop k (c # cs)) ps)
        = (like_spec (c # cs) ps \<or> (\<exists>k\<le>length cs. like_spec (drop k cs) ps))"
  proof
    assume "\<exists>k\<le>length (c # cs). like_spec (drop k (c # cs)) ps"
    then obtain k where k: "k \<le> length (c # cs)" "like_spec (drop k (c # cs)) ps" by blast
    show "like_spec (c # cs) ps \<or> (\<exists>k\<le>length cs. like_spec (drop k cs) ps)"
    proof (cases k)
      case 0
      with k show ?thesis by simp
    next
      case (Suc k')
      with k have "k' \<le> length cs" "like_spec (drop k' cs) ps" by simp_all
      then show ?thesis by blast
    qed
  next
    assume "like_spec (c # cs) ps \<or> (\<exists>k\<le>length cs. like_spec (drop k cs) ps)"
    then show "\<exists>k\<le>length (c # cs). like_spec (drop k (c # cs)) ps"
    proof
      assume "like_spec (c # cs) ps"
      then have "0 \<le> length (c # cs) \<and> like_spec (drop 0 (c # cs)) ps" by simp
      then show ?thesis by blast
    next
      assume "\<exists>k\<le>length cs. like_spec (drop k cs) ps"
      then obtain k where "k \<le> length cs" "like_spec (drop k cs) ps" by blast
      then have "Suc k \<le> length (c # cs) \<and> like_spec (drop (Suc k) (c # cs)) ps" by simp
      then show ?thesis by blast
    qed
  qed
  with Cons show ?case by simp
qed

lemma like_percents:
  "0 < j \<Longrightarrow> like_spec ts (replicate j (CHR ''%'') @ ps) = (\<exists>k\<le>length ts. like_spec (drop k ts) ps)"
proof (induction j arbitrary: ts)
  case 0
  then show ?case by simp
next
  case (Suc j)
  show ?case
  proof (cases "j = 0")
    case True
    then show ?thesis by (simp add: like_percent)
  next
    case False
    then have ih: "\<And>ts. like_spec ts (replicate j (CHR ''%'') @ ps) = (\<exists>k\<le>length ts. like_spec (drop k ts) ps)"
      using Suc.IH by simp
    have "like_spec ts (replicate (Suc j) (CHR ''%'') @ ps)
          = (\<exists>k\<le>length ts. \<exists>k'\<le>length (drop k ts). like_spec (drop k' (drop k ts)) ps)"
      by (simp add: like_percent ih)
    also have "\<dots> = (\<exists>k\<le>length ts. like_spec (drop k ts) ps)"
    proof
      assume "\<exists>k\<le>length ts. \<exists>k'\<le>length (drop k ts). like_spec (drop k' (drop k ts)) ps"
      then obtain k k' where "k \<le> length ts" "k' \<le> length (drop k ts)" "like_spec (drop k' (drop k ts)) ps"
        by blast
      then have "k' + k \<le> length ts \<and> like_spec (drop (k' + k) ts) ps" by simp
      then show "\<exists>k\<le>length ts. like_spec (drop k ts) ps" by blast
    next
      assume "\<exists>k\<le>length ts. like_spec (drop k ts) ps"
      then obtain k where "k \<le> length ts" "like_spec (drop k ts) ps" by blast
      then have "k \<le> length ts \<and> 0 \<le> length (drop k ts) \<and> like_spec (drop 0 (drop k ts)) ps" by simp
      then show "\<exists>k\<le>length ts. \<exists>k'\<le>length (drop k ts). like_spec (drop k' (drop k ts)) ps" by blast
    qed
    finally show ?thesis .
  qed
qed

lemma skip_percent_spec:
  "p \<le> length pat \<Longrightarrow>
     \<exists>j. skip_percent pat p = p + j \<and> p + j \<le> length pat \<and>
         drop p pat = replicate j (CHR ''%'') @ drop (p + j) pat \<and>
         cstr_at pat (p + j) \<noteq> CHR ''%''"
proof (induction pat p rule: skip_percent.induct)
  case (1 pat p)
  show ?case
  proof (cases "cstr_at pat p = CHR ''%''")
    case False
    then have "skip_percent pat p = p + 0" by (subst skip_percent.simps) simp
    with False 1(2) show ?thesis by (intro exI[of _ 0]) simp
  next
    case True
    then have lt: "p < length pat" and c: "pat ! p = CHR ''%''"
      by (auto simp: cstr_at_def split: if_splits)
    from 1(1)[OF True] lt obtain j where j: "skip_percent pat (Suc p) = Suc p + j"
      "Suc p + j \<le> length pat" "drop (Suc p) pat = replicate j (CHR ''%'') @ drop (Suc p + j) pat"
      "cstr_at pat (Suc p + j) \<noteq> CHR ''%''" by auto
    have "skip_percent pat p = p + Suc j" using True j(1) by (subst skip_percent.simps) simp
    moreover have "drop p pat = replicate (Suc j) (CHR ''%'') @ drop (p + Suc j) pat"
      using j(3) lt c by (simp add: Cons_nth_drop_Suc[symmetric])
    ultimately show ?thesis using j(2,4) by (intro exI[of _ "Suc j"]) simp
  qed
qed

lemma suffix_like_char:
  assumes "p < length pat" "pat ! p \<noteq> CHR ''%''"
  shows "suffix_like text pat t p =
           (t < length text \<and> (pat ! p = CHR ''_'' \<or> pat ! p = text ! t) \<and>
            suffix_like text pat (Suc t) (Suc p))"
proof -
  have dp: "drop p pat = pat ! p # drop (Suc p) pat"
    using assms(1) by (simp add: Cons_nth_drop_Suc)
  show ?thesis
  proof (cases "t < length text")
    case True
    then have "drop t text = text ! t # drop (Suc t) text" by (simp add: Cons_nth_drop_Suc)
    with dp assms(2) True show ?thesis by (simp add: suffix_like_def)
  next
    case False
    with dp assms(2) show ?thesis by (simp add: suffix_like_def)
  qed
qed

lemma suffix_like_pat_end: "length pat \<le> p \<Longrightarrow> suffix_like text pat t p = (length text \<le> t)"
  by (simp add: suffix_like_def like_nil_pat)

lemma suffix_like_percents:
  assumes "drop p pat = replicate j (CHR ''%'') @ drop (p + j) pat" "0 < j" "t \<le> length text"
  shows "suffix_like text pat t p = (\<exists>k. t \<le> k \<and> k \<le> length text \<and> suffix_like text pat k (p + j))"
proof -
  have "suffix_like text pat t p =
          (\<exists>d\<le>length (drop t text). like_spec (drop d (drop t text)) (drop (p + j) pat))"
    unfolding suffix_like_def by (subst assms(1)) (rule like_percents[OF assms(2)])
  also have "\<dots> = (\<exists>k. t \<le> k \<and> k \<le> length text \<and> suffix_like text pat k (p + j))"
  proof
    assume "\<exists>d\<le>length (drop t text). like_spec (drop d (drop t text)) (drop (p + j) pat)"
    then obtain d where "d \<le> length (drop t text)" "like_spec (drop d (drop t text)) (drop (p + j) pat)"
      by blast
    then have "t \<le> d + t \<and> d + t \<le> length text \<and> suffix_like text pat (d + t) (p + j)"
      using assms(3) by (simp add: suffix_like_def)
    then show "\<exists>k. t \<le> k \<and> k \<le> length text \<and> suffix_like text pat k (p + j)" by blast
  next
    assume "\<exists>k. t \<le> k \<and> k \<le> length text \<and> suffix_like text pat k (p + j)"
    then obtain k where k: "t \<le> k" "k \<le> length text" "suffix_like text pat k (p + j)" by blast
    then have "k - t \<le> length (drop t text) \<and> like_spec (drop (k - t) (drop t text)) (drop (p + j) pat)"
      by (simp add: suffix_like_def)
    then show "\<exists>d\<le>length (drop t text). like_spec (drop d (drop t text)) (drop (p + j) pat)" by blast
  qed
  finally show ?thesis .
qed

lemma seg_consume:
  "\<forall>i<len. pat ! (pb + i) \<noteq> CHR ''%'' \<Longrightarrow> pb + len \<le> length pat \<Longrightarrow> k \<le> length text \<Longrightarrow>
     suffix_like text pat k pb \<Longrightarrow>
     k + len \<le> length text \<and> suffix_like text pat (k + len) (pb + len)"
proof (induction len arbitrary: k pb)
  case 0
  then show ?case by simp
next
  case (Suc len)
  from Suc.prems(1) have c: "pat ! pb \<noteq> CHR ''%''" by (metis add.right_neutral zero_less_Suc)
  from Suc.prems(2) have lt: "pb < length pat" by simp
  from Suc.prems(4) have k: "k < length text" and nxt: "suffix_like text pat (Suc k) (Suc pb)"
    using suffix_like_char[OF lt c, of "text" k] by simp_all
  have "\<forall>i<len. pat ! (Suc pb + i) \<noteq> CHR ''%''"
  proof (intro allI impI)
    fix i assume "i < len"
    then have "Suc i < Suc len" by simp
    with Suc.prems(1) have "pat ! (pb + Suc i) \<noteq> CHR ''%''" by blast
    then show "pat ! (Suc pb + i) \<noteq> CHR ''%''" by simp
  qed
  from Suc.IH[OF this _ _ nxt] Suc.prems(2) k show ?case by simp
qed

lemma segment_ok_shift:
  "segment_ok text pat tb pb (Suc len) \<Longrightarrow> segment_ok text pat (Suc tb) (Suc pb) len"
  unfolding segment_ok_def
proof (intro allI impI)
  fix i assume a: "\<forall>i<Suc len. pat ! (pb + i) \<noteq> CHR ''%'' \<and>
              (pat ! (pb + i) = CHR ''_'' \<or> pat ! (pb + i) = text ! (tb + i))" and "i < len"
  then have "Suc i < Suc len" by simp
  with a have "pat ! (pb + Suc i) \<noteq> CHR ''%'' \<and>
              (pat ! (pb + Suc i) = CHR ''_'' \<or> pat ! (pb + Suc i) = text ! (tb + Suc i))" by blast
  then show "pat ! (Suc pb + i) \<noteq> CHR ''%'' \<and>
              (pat ! (Suc pb + i) = CHR ''_'' \<or> pat ! (Suc pb + i) = text ! (Suc tb + i))" by simp
qed

lemma segment_ok_no_percent:
  "segment_ok text pat tb pb len \<Longrightarrow> \<forall>i<len. pat ! (pb + i) \<noteq> CHR ''%''"
  by (simp add: segment_ok_def)

lemma seg_match:
  "segment_ok text pat tb pb len \<Longrightarrow> tb + len \<le> length text \<Longrightarrow> pb + len \<le> length pat \<Longrightarrow>
     suffix_like text pat tb pb = suffix_like text pat (tb + len) (pb + len)"
proof (induction len arbitrary: tb pb)
  case 0
  show ?case by simp
next
  case (Suc len)
  from Suc.prems(1) have c: "pat ! pb \<noteq> CHR ''%''"
    and m: "pat ! pb = CHR ''_'' \<or> pat ! pb = text ! tb"
    unfolding segment_ok_def by (metis add.right_neutral zero_less_Suc)+
  from Suc.prems have lt: "pb < length pat" "tb < length text" by simp_all
  have "suffix_like text pat tb pb = suffix_like text pat (Suc tb) (Suc pb)"
    using suffix_like_char[OF lt(1) c, of "text" tb] m lt(2) by simp
  also have "\<dots> = suffix_like text pat (Suc tb + len) (Suc pb + len)"
    using Suc.IH[OF segment_ok_shift[OF Suc.prems(1)]] Suc.prems(2,3) by simp
  finally show ?case by simp
qed

lemma segment_ok_extend:
  assumes "segment_ok text pat tb pb len" "pat ! (pb + len) \<noteq> CHR ''%''"
    "pat ! (pb + len) = CHR ''_'' \<or> pat ! (pb + len) = text ! (tb + len)"
  shows "segment_ok text pat tb pb (Suc len)"
  unfolding segment_ok_def
proof (intro allI impI)
  fix i assume "i < Suc len"
  then show "pat ! (pb + i) \<noteq> CHR ''%'' \<and>
              (pat ! (pb + i) = CHR ''_'' \<or> pat ! (pb + i) = text ! (tb + i))"
    using assms by (cases "i = len") (auto simp: segment_ok_def)
qed

lemma cstr_at_nul: "CHR 0x00 \<notin> set s \<Longrightarrow> (cstr_at s i = CHR 0x00) = (length s \<le> i)"
  by (auto simp: cstr_at_def dest: nth_mem)

lemma percent_equiv:
  assumes inv: "loop_inv text pat t p bt"
    and dp: "drop p pat = replicate j (CHR ''%'') @ drop (p + j) pat" and j: "0 < j"
    and pj: "p + j \<le> length pat"
  shows "like_spec text pat = (\<exists>k. t \<le> k \<and> k \<le> length text \<and> suffix_like text pat k (p + j))"
proof -
  from inv have t: "t \<le> length text" and p: "p \<le> length pat" by (simp_all add: loop_inv_def)
  note pc = suffix_like_percents[OF dp j]
  show ?thesis
  proof (cases bt)
    case None
    with inv have "like_spec text pat = suffix_like text pat t p" by (simp add: loop_inv_def)
    with pc[OF t] show ?thesis by simp
  next
    case (Some b)
    obtain tb pb where b: "b = (tb, pb)" by (cases b)
    with Some inv have tb: "tb \<le> t" and pb: "pb \<le> p" and d: "t - tb = p - pb"
      and seg: "segment_ok text pat tb pb (p - pb)"
      and like: "like_spec text pat = (\<exists>k. tb \<le> k \<and> k \<le> length text \<and> suffix_like text pat k pb)"
      by (simp_all add: loop_inv_def)
    have tt: "tb + (p - pb) = t" and pp: "pb + (p - pb) = p" using tb pb d by simp_all
    have "(\<exists>k. tb \<le> k \<and> k \<le> length text \<and> suffix_like text pat k pb)
          = (\<exists>k. t \<le> k \<and> k \<le> length text \<and> suffix_like text pat k (p + j))"
    proof
      assume "\<exists>k. tb \<le> k \<and> k \<le> length text \<and> suffix_like text pat k pb"
      then obtain k where k: "tb \<le> k" "k \<le> length text" "suffix_like text pat k pb" by blast
      have "k + (p - pb) \<le> length text \<and> suffix_like text pat (k + (p - pb)) (pb + (p - pb))"
        using seg_consume[OF segment_ok_no_percent[OF seg] _ k(2,3)] pp p by simp
      then have b: "k + (p - pb) \<le> length text" and s: "suffix_like text pat (k + (p - pb)) p"
        using pp by simp_all
      from pc[OF b] s obtain k' where "k + (p - pb) \<le> k'" "k' \<le> length text"
        "suffix_like text pat k' (p + j)" by blast
      moreover have "t \<le> k + (p - pb)" using k(1) tt by simp
      ultimately show "\<exists>k. t \<le> k \<and> k \<le> length text \<and> suffix_like text pat k (p + j)"
        by (meson le_trans)
    next
      assume "\<exists>k. t \<le> k \<and> k \<le> length text \<and> suffix_like text pat k (p + j)"
      with pc[OF t] have "suffix_like text pat t p" by simp
      moreover have "suffix_like text pat tb pb = suffix_like text pat t p"
        using seg_match[OF seg] tt pp t p by simp
      ultimately have "tb \<le> tb \<and> tb \<le> length text \<and> suffix_like text pat tb pb"
        using tb t by simp
      then show "\<exists>k. tb \<le> k \<and> k \<le> length text \<and> suffix_like text pat k pb" by blast
    qed
    with like show ?thesis by simp
  qed
qed

lemma step_percent_done:
  assumes "loop_inv text pat t p bt"
    and "drop p pat = replicate j (CHR ''%'') @ drop (p + j) pat" and "0 < j"
    and "p + j = length pat"
  shows "like_spec text pat"
proof -
  from assms(1) have t: "t \<le> length text" by (simp add: loop_inv_def)
  have "suffix_like text pat (length text) (p + j)"
    using assms(4) by (simp add: suffix_like_pat_end)
  with t have "\<exists>k. t \<le> k \<and> k \<le> length text \<and> suffix_like text pat k (p + j)" by blast
  with percent_equiv[OF assms(1-3)] assms(4) show ?thesis by simp
qed

lemma step_percent_inv:
  assumes "loop_inv text pat t p bt"
    and "drop p pat = replicate j (CHR ''%'') @ drop (p + j) pat" and "0 < j"
    and "p + j \<le> length pat"
  shows "loop_inv text pat t (p + j) (Some (t, p + j))"
proof -
  from assms(1) have t: "t \<le> length text" by (simp add: loop_inv_def)
  with percent_equiv[OF assms] assms(4) show ?thesis
    by (simp add: loop_inv_def segment_ok_def)
qed

lemma step_char_inv:
  assumes inv: "loop_inv text pat t p bt" and t: "t < length text" and p: "p < length pat"
    and c: "pat ! p \<noteq> CHR ''%''" and m: "pat ! p = CHR ''_'' \<or> pat ! p = text ! t"
  shows "loop_inv text pat (Suc t) (Suc p) bt"
proof (cases bt)
  case None
  with inv have "like_spec text pat = suffix_like text pat t p" by (simp add: loop_inv_def)
  also have "\<dots> = suffix_like text pat (Suc t) (Suc p)"
    using suffix_like_char[OF p c, of "text" t] t m by simp
  finally show ?thesis using None t p by (simp add: loop_inv_def)
next
  case (Some b)
  obtain tb pb where b: "b = (tb, pb)" by (cases b)
  with Some inv have tb: "tb \<le> t" and pb: "pb \<le> p" and d: "t - tb = p - pb"
    and seg: "segment_ok text pat tb pb (p - pb)"
    and like: "like_spec text pat = (\<exists>k. tb \<le> k \<and> k \<le> length text \<and> suffix_like text pat k pb)"
    by (simp_all add: loop_inv_def)
  have tt: "tb + (p - pb) = t" and pp: "pb + (p - pb) = p" using tb pb d by simp_all
  have "segment_ok text pat tb pb (Suc (p - pb))"
    by (rule segment_ok_extend[OF seg]) (use c m tt pp in simp_all)
  moreover have "Suc p - pb = Suc (p - pb)" "Suc t - tb = Suc p - pb" using tb pb d by simp_all
  ultimately show ?thesis using Some b tb pb like t p by (simp add: loop_inv_def)
qed

lemma mismatch_no_suffix:
  assumes "t < length text"
    and "length pat \<le> p \<or> (pat ! p \<noteq> CHR ''%'' \<and> pat ! p \<noteq> CHR ''_'' \<and> pat ! p \<noteq> text ! t)"
  shows "\<not> suffix_like text pat t p"
proof (cases "length pat \<le> p")
  case True
  with assms(1) show ?thesis by (simp add: suffix_like_pat_end)
next
  case False
  with assms(2) have "p < length pat" "pat ! p \<noteq> CHR ''%''" "pat ! p \<noteq> CHR ''_''" "pat ! p \<noteq> text ! t"
    by simp_all
  then show ?thesis using suffix_like_char[of p pat "text" t] by simp
qed

lemma step_mismatch_false:
  assumes "loop_inv text pat t p None" and "t < length text"
    and "length pat \<le> p \<or> (pat ! p \<noteq> CHR ''%'' \<and> pat ! p \<noteq> CHR ''_'' \<and> pat ! p \<noteq> text ! t)"
  shows "\<not> like_spec text pat"
  using assms(1) mismatch_no_suffix[OF assms(2,3)] by (simp add: loop_inv_def)

lemma step_backtrack_inv:
  assumes inv: "loop_inv text pat t p (Some (tb, pb))" and t: "t < length text"
    and mm: "length pat \<le> p \<or> (pat ! p \<noteq> CHR ''%'' \<and> pat ! p \<noteq> CHR ''_'' \<and> pat ! p \<noteq> text ! t)"
  shows "loop_inv text pat (Suc tb) pb (Some (Suc tb, pb))"
proof -
  from inv have tb: "tb \<le> t" and pb: "pb \<le> p" and d: "t - tb = p - pb" and p: "p \<le> length pat"
    and seg: "segment_ok text pat tb pb (p - pb)"
    and like: "like_spec text pat = (\<exists>k. tb \<le> k \<and> k \<le> length text \<and> suffix_like text pat k pb)"
    by (simp_all add: loop_inv_def)
  have tt: "tb + (p - pb) = t" and pp: "pb + (p - pb) = p" using tb pb d by simp_all
  have "suffix_like text pat tb pb = suffix_like text pat t p"
    using seg_match[OF seg] tt pp t p by simp
  with mismatch_no_suffix[OF t mm] have no: "\<not> suffix_like text pat tb pb" by simp
  have "(\<exists>k. tb \<le> k \<and> k \<le> length text \<and> suffix_like text pat k pb)
        = (\<exists>k. Suc tb \<le> k \<and> k \<le> length text \<and> suffix_like text pat k pb)"
  proof
    assume "\<exists>k. tb \<le> k \<and> k \<le> length text \<and> suffix_like text pat k pb"
    then obtain k where k: "tb \<le> k" "k \<le> length text" "suffix_like text pat k pb" by blast
    with no have "k \<noteq> tb" by auto
    with k have "Suc tb \<le> k \<and> k \<le> length text \<and> suffix_like text pat k pb" by simp
    then show "\<exists>k. Suc tb \<le> k \<and> k \<le> length text \<and> suffix_like text pat k pb" by blast
  next
    assume "\<exists>k. Suc tb \<le> k \<and> k \<le> length text \<and> suffix_like text pat k pb"
    then obtain k where "Suc tb \<le> k" "k \<le> length text" "suffix_like text pat k pb" by blast
    then have "tb \<le> k \<and> k \<le> length text \<and> suffix_like text pat k pb" by simp
    then show "\<exists>k. tb \<le> k \<and> k \<le> length text \<and> suffix_like text pat k pb" by blast
  qed
  with like tb t pb p show ?thesis by (simp add: loop_inv_def segment_ok_def)
qed

lemma step_exit:
  assumes inv: "loop_inv text pat t p bt" and t: "length text \<le> t"
  shows "like_spec text pat = (set (drop p pat) \<subseteq> {CHR ''%''})"
proof -
  from inv t have tn: "t = length text" and p: "p \<le> length pat" by (simp_all add: loop_inv_def)
  have fin: "suffix_like text pat t p = (set (drop p pat) \<subseteq> {CHR ''%''})"
    using tn by (simp add: suffix_like_def like_nil_text)
  show ?thesis
  proof (cases bt)
    case None
    with inv fin show ?thesis by (simp add: loop_inv_def)
  next
    case (Some b)
    obtain tb pb where b: "b = (tb, pb)" by (cases b)
    with Some inv have tb: "tb \<le> t" and pb: "pb \<le> p" and d: "t - tb = p - pb"
      and seg: "segment_ok text pat tb pb (p - pb)"
      and like: "like_spec text pat = (\<exists>k. tb \<le> k \<and> k \<le> length text \<and> suffix_like text pat k pb)"
      by (simp_all add: loop_inv_def)
    have tt: "tb + (p - pb) = t" and pp: "pb + (p - pb) = p" using tb pb d by simp_all
    have m: "suffix_like text pat tb pb = suffix_like text pat t p"
      using seg_match[OF seg] tt pp tn p by simp
    have "(\<exists>k. tb \<le> k \<and> k \<le> length text \<and> suffix_like text pat k pb) = suffix_like text pat t p"
    proof
      assume "\<exists>k. tb \<le> k \<and> k \<le> length text \<and> suffix_like text pat k pb"
      then obtain k where k: "tb \<le> k" "k \<le> length text" "suffix_like text pat k pb" by blast
      have "k + (p - pb) \<le> length text \<and> suffix_like text pat (k + (p - pb)) (pb + (p - pb))"
        using seg_consume[OF segment_ok_no_percent[OF seg] _ k(2,3)] pp p by simp
      then have "k + (p - pb) \<le> tb + (p - pb)" using tt tn by simp
      with k(1) have "k = tb" by simp
      with k(3) m show "suffix_like text pat t p" by simp
    next
      assume "suffix_like text pat t p"
      with m tb tn have "tb \<le> tb \<and> tb \<le> length text \<and> suffix_like text pat tb pb" by simp
      then show "\<exists>k. tb \<le> k \<and> k \<le> length text \<and> suffix_like text pat k pb" by blast
    qed
    with like fin show ?thesis by simp
  qed
qed

lemma skip_to_end:
  assumes "CHR 0x00 \<notin> set pat" "p \<le> length pat"
  shows "(cstr_at pat (skip_percent pat p) = CHR 0x00) = (set (drop p pat) \<subseteq> {CHR ''%''})"
proof -
  from skip_percent_spec[OF assms(2)] obtain j where j: "skip_percent pat p = p + j"
    "p + j \<le> length pat" "drop p pat = replicate j (CHR ''%'') @ drop (p + j) pat"
    "cstr_at pat (p + j) \<noteq> CHR ''%''" by blast
  show ?thesis
  proof (cases "p + j = length pat")
    case True
    with j(3) have "drop p pat = replicate j (CHR ''%'')" by simp
    then have "set (drop p pat) \<subseteq> {CHR ''%''}" by auto
    with True j(1) assms(1) show ?thesis by (simp add: cstr_at_nul)
  next
    case False
    with j(2) have lt: "p + j < length pat" by simp
    with j(4) have "pat ! (p + j) \<noteq> CHR ''%''" by (simp add: cstr_at_def)
    moreover have "pat ! (p + j) \<in> set (drop (p + j) pat)"
      using lt by (metis Cons_nth_drop_Suc list.set_intros(1))
    then have "pat ! (p + j) \<in> set (drop p pat)" by (subst j(3)) simp
    ultimately have "\<not> set (drop p pat) \<subseteq> {CHR ''%''}" by auto
    with lt j(1) assms(1) show ?thesis by (simp add: cstr_at_nul)
  qed
qed

lemma pattern_match_loop_correct:
  "CHR 0x00 \<notin> set text \<Longrightarrow> CHR 0x00 \<notin> set pat \<Longrightarrow> loop_inv text pat t p bt \<Longrightarrow>
     pattern_match_loop text pat t p bt = like_spec text pat"
proof (induction "text" pat t p bt rule: pattern_match_loop.induct)
  case (1 tx pat t p bt)
  note nt = 1(4) and np = 1(5) and inv = 1(6)
  from inv have pm: "p \<le> length pat" and tn: "t \<le> length tx" by (simp_all add: loop_inv_def)
  show ?case
  proof (cases "cstr_at tx t \<noteq> CHR 0x00")
    case False
    then have "length tx \<le> t" using nt by (simp add: cstr_at_nul)
    from step_exit[OF inv this] skip_to_end[OF np pm] False
    show ?thesis by (subst pattern_match_loop.simps) simp
  next
    case True
    then have t: "t < length tx" using nt by (simp add: cstr_at_nul)
    then have ct: "cstr_at tx t = tx ! t" by (simp add: cstr_at_def)
    show ?thesis
    proof (cases "cstr_at pat p = CHR ''%''")
      case pc: True
      from skip_percent_spec[OF pm] obtain j where j: "skip_percent pat p = p + j"
        "p + j \<le> length pat" "drop p pat = replicate j (CHR ''%'') @ drop (p + j) pat"
        "cstr_at pat (p + j) \<noteq> CHR ''%''" by blast
      from pc j(4) have j0: "0 < j" by (cases j) auto
      show ?thesis
      proof (cases "cstr_at pat (skip_percent pat p) = CHR 0x00")
        case True
        then have "p + j = length pat" using j(1,2) np by (simp add: cstr_at_nul)
        from step_percent_done[OF inv j(3) j0 this] True pc \<open>cstr_at tx t \<noteq> CHR 0x00\<close>
        show ?thesis by (subst pattern_match_loop.simps) simp
      next
        case False
        have "loop_inv tx pat t (skip_percent pat p) (Some (t, skip_percent pat p))"
          using step_percent_inv[OF inv j(3) j0 j(2)] j(1) by simp
        from 1(1)[OF \<open>cstr_at tx t \<noteq> CHR 0x00\<close> pc False nt np this]
          False pc \<open>cstr_at tx t \<noteq> CHR 0x00\<close>
        show ?thesis by (subst pattern_match_loop.simps) simp
      qed
    next
      case npc: False
      show ?thesis
      proof (cases "cstr_at pat p = CHR ''_'' \<or> cstr_at pat p = cstr_at tx t")
        case True
        have p: "p < length pat"
        proof (rule ccontr)
          assume "\<not> p < length pat"
          then have "cstr_at pat p = CHR 0x00" by (simp add: cstr_at_def)
          with True \<open>cstr_at tx t \<noteq> CHR 0x00\<close> show False by auto
        qed
        then have cp: "cstr_at pat p = pat ! p" by (simp add: cstr_at_def)
        have "loop_inv tx pat (Suc t) (Suc p) bt"
          by (rule step_char_inv[OF inv t p]) (use npc True cp ct in auto)
        from 1(2)[OF \<open>cstr_at tx t \<noteq> CHR 0x00\<close> npc True nt np this]
          True npc \<open>cstr_at tx t \<noteq> CHR 0x00\<close>
        show ?thesis by (subst pattern_match_loop.simps) simp
      next
        case False
        have mm: "length pat \<le> p \<or>
                  (pat ! p \<noteq> CHR ''%'' \<and> pat ! p \<noteq> CHR ''_'' \<and> pat ! p \<noteq> tx ! t)"
          using False npc ct by (cases "p < length pat") (auto simp: cstr_at_def)
        show ?thesis
        proof (cases bt)
          case None
          with step_mismatch_false[OF _ t mm] inv False npc \<open>cstr_at tx t \<noteq> CHR 0x00\<close>
          show ?thesis by (subst pattern_match_loop.simps) simp
        next
          case (Some b)
          obtain tb pb where b: "b = (tb, pb)" by (cases b)
          have "loop_inv tx pat (Suc tb) pb (Some (Suc tb, pb))"
            using step_backtrack_inv[OF _ t mm] inv Some b by simp
          from 1(3)[OF \<open>cstr_at tx t \<noteq> CHR 0x00\<close> npc False Some b[symmetric] nt np this]
            False npc \<open>cstr_at tx t \<noteq> CHR 0x00\<close> Some b
          show ?thesis by (subst pattern_match_loop.simps) simp
        qed
      qed
    qed
  qed
qed

lemma pattern_match_like:
  assumes "CHR 0x00 \<notin> set text" "CHR 0x00 \<notin> set pat"
  shows "pattern_match text pat = like_spec text pat"
  unfolding pattern_match_def
  by (rule pattern_match_loop_correct[OF assms]) (simp add: loop_inv_def suffix_like_def)

lemma like_literal:
  "CHR ''%'' \<notin> set pat \<Longrightarrow> CHR ''_'' \<notin> set pat \<Longrightarrow> like_spec text pat = (text = pat)"
proof (induction pat arbitrary: "text")
  case Nil
  show ?case by (simp add: like_nil_pat)
next
  case (Cons q qs)
  then have q: "q \<noteq> CHR ''%''" "q \<noteq> CHR ''_''" by auto
  show ?case
  proof (cases "text")
    case Nil
    with q show ?thesis by simp
  next
    case (Cons c cs)
    with q Cons.IH[of cs] Cons.prems show ?thesis by auto
  qed
qed

lemma like_after_text:
  "CHR ''%'' \<notin> set text \<Longrightarrow> like_spec text (text @ rest) = (set rest \<subseteq> {CHR ''%''})"
  by (induction "text") (auto simp: like_nil_text)

section \<open>The pattern matcher\<close>

text \<open>
  C5. On C strings (no NUL inside), \<open>pattern_match\<close> is the anchored matcher of the
  specification: \<open>%\<close> for any run of characters, \<open>_\<close> for exactly one, every other
  character for itself, nothing escaped. In particular a pattern without \<open>%\<close> and \<open>_\<close>
  matches exactly the text equal to it; once the text is used up (here: by a literal
  copy of it at the head of the pattern), a rest of the pattern made of \<open>%\<close> only still
  matches and any other rest does not; and the six test vectors of the specification
  hold.
\<close>

theorem pattern_match_is_like:
  assumes "CHR 0x00 \<notin> set text" and "CHR 0x00 \<notin> set pat"
  shows "pattern_match text pat = like_spec text pat
       \<and> (CHR ''%'' \<notin> set pat \<longrightarrow> CHR ''_'' \<notin> set pat \<longrightarrow> pattern_match text pat = (text = pat))
       \<and> (CHR ''%'' \<notin> set text \<longrightarrow> pattern_match text (text @ replicate n (CHR ''%'')))
       \<and> (CHR ''%'' \<notin> set text \<longrightarrow> pattern_match text (text @ pat) = (set pat \<subseteq> {CHR ''%''}))
       \<and> pattern_match ''abc'' ''a%c'' \<and> pattern_match ''ac'' ''a%c''
       \<and> pattern_match ''abc'' ''a_c'' \<and> \<not> pattern_match ''abbc'' ''a_c''
       \<and> pattern_match ''abc'' ''%b%'' \<and> pattern_match ''anything'' ''%''"
proof -
  have main: "pattern_match text pat = like_spec text pat"
    by (rule pattern_match_like[OF assms])
  have lit: "CHR ''%'' \<notin> set pat \<longrightarrow> CHR ''_'' \<notin> set pat \<longrightarrow> pattern_match text pat = (text = pat)"
    using main like_literal by simp
  have "CHR 0x00 \<notin> set (text @ replicate n (CHR ''%''))" using assms(1) by auto
  from pattern_match_like[OF assms(1) this]
  have run: "CHR ''%'' \<notin> set text \<longrightarrow> pattern_match text (text @ replicate n (CHR ''%''))"
    by (auto simp: like_after_text)
  have "CHR 0x00 \<notin> set (text @ pat)" using assms by auto
  from pattern_match_like[OF assms(1) this]
  have rest: "CHR ''%'' \<notin> set text \<longrightarrow> pattern_match text (text @ pat) = (set pat \<subseteq> {CHR ''%''})"
    by (simp add: like_after_text)
  have v1: "pattern_match ''abc'' ''a%c''" by (subst pattern_match_like) simp_all
  have v2: "pattern_match ''ac'' ''a%c''" by (subst pattern_match_like) simp_all
  have v3: "pattern_match ''abc'' ''a_c''" by (subst pattern_match_like) simp_all
  have v4: "\<not> pattern_match ''abbc'' ''a_c''" by (subst pattern_match_like) simp_all
  have v5: "pattern_match ''abc'' ''%b%''" by (subst pattern_match_like) simp_all
  have v6: "pattern_match ''anything'' ''%''" by (subst pattern_match_like) simp_all
  from main lit run rest v1 v2 v3 v4 v5 v6 show ?thesis by blast
qed

theorem pattern_match_is_like_witness:
  "pattern_match ''select 1'' ''sel%_1''
   \<and> \<not> pattern_match ''select 1'' ''sel%_2''
   \<and> \<not> pattern_match ''select 1'' ''select''
   \<and> pattern_match ''select 1'' ''select 1''
   \<and> pattern_match ''select 1'' ''select 1%%''
   \<and> \<not> pattern_match ''select 1'' ''select 1%x''
   \<and> \<not> pattern_match ''100%'' ''100''
   \<and> pattern_match ''100x'' ''100%''"
proof -
  have n: "\<And>s. CHR 0x00 \<notin> set ''select 1''" "CHR 0x00 \<notin> set ''sel%_1''" "CHR 0x00 \<notin> set ''sel%_2''"
    "CHR 0x00 \<notin> set ''select''" "CHR 0x00 \<notin> set ''%%''" "CHR 0x00 \<notin> set ''%x''"
    "CHR 0x00 \<notin> set ''100%''" "CHR 0x00 \<notin> set ''100''" "CHR 0x00 \<notin> set ''100x''"
    by simp_all
  have w: "CHR ''%'' \<notin> set ''select''" "CHR ''_'' \<notin> set ''select''"
    "CHR ''%'' \<notin> set ''select 1''" "CHR ''_'' \<notin> set ''select 1''"
    "CHR ''%'' \<notin> set ''100''" "CHR ''_'' \<notin> set ''100''"
    by simp_all
  have a: "pattern_match ''select 1'' ''sel%_1''"
    using pattern_match_is_like[OF n(1) n(2), of 0] by simp
  have b: "\<not> pattern_match ''select 1'' ''sel%_2''"
    using pattern_match_is_like[OF n(1) n(3), of 0] by simp
  have c: "\<not> pattern_match ''select 1'' ''select''"
    using pattern_match_is_like[OF n(1) n(4), of 0] w by simp
  have d: "pattern_match ''select 1'' ''select 1''"
    using pattern_match_is_like[OF n(1) n(1), of 0] w by simp
  have e: "pattern_match ''select 1'' ''select 1%%''"
    using pattern_match_is_like[OF n(1) n(5), of 0] w by simp
  have f: "\<not> pattern_match ''select 1'' ''select 1%x''"
    using pattern_match_is_like[OF n(1) n(6), of 0] w by simp
  have g: "\<not> pattern_match ''100%'' ''100''"
    using pattern_match_is_like[OF n(7) n(8), of 0] w by simp
  have h: "pattern_match ''100x'' ''100%''"
    using pattern_match_is_like[OF n(9) n(7), of 0] by simp
  from a b c d e f g h show ?thesis by blast
qed

end
